theory Spec2Isabelle
  imports Main
begin

section \<open>Task graph data model (types/dag.ts)\<close>

text \<open>
  \<^verbatim>\<open>TaskStatus\<close> is the four-valued enumeration of the source. A \<^verbatim>\<open>PlanNode\<close> carries the
  fields the graph, the scheduler and the controller read or write; every other field of
  the Zod schema (tool, toolInput, executionMethod, query, tools, subagentConfig, metadata)
  is forwarded untouched to the task runner and is kept in the opaque \<open>payload\<close>.
  \<open>result\<close> is \<^verbatim>\<open>any\<close> in the source: its values are the type parameter \<open>'r\<close>, and
  \<open>None\<close> is \<^verbatim>\<open>undefined\<close>.
\<close>

datatype TaskStatus = Pending | Executing | Completed | Failed

record ('p, 'r) PlanNode =
  node_id :: string
  action :: string
  dependsOn :: "string list"
  payload :: 'p
  status :: TaskStatus
  result :: "'r option"
  error :: "string option"

text \<open>
  \<^verbatim>\<open>Partial<PlanNode>\<close>, restricted to the keys the graph's own callers pass to
  \<^verbatim>\<open>updateTask\<close>: an absent key is \<open>None\<close>. \<^verbatim>\<open>Object.assign\<close> overwrites exactly
  the keys that are present.
\<close>

record 'r PartialPlanNode =
  new_status :: "TaskStatus option"
  new_result :: "'r option"
  new_error :: "string option"

definition assign :: "('p, 'r) PlanNode \<Rightarrow> 'r PartialPlanNode \<Rightarrow> ('p, 'r) PlanNode" where
  "assign task updates =
     task\<lparr> status := (case new_status updates of None \<Rightarrow> status task | Some s \<Rightarrow> s),
           result := (case new_result updates of None \<Rightarrow> result task | Some r \<Rightarrow> Some r),
           error := (case new_error updates of None \<Rightarrow> error task | Some e \<Rightarrow> Some e) \<rparr>"

record ValidationResult =
  valid :: bool
  errors :: "string list"

record DAGStats =
  total :: nat
  pending :: nat
  executing :: nat
  completed :: nat
  failed :: nat

section \<open>ExecutionDAG (dag/ExecutionDAG.ts)\<close>

text \<open>
  The only field of the class is \<^verbatim>\<open>tasks: Map<string, PlanNode>\<close>. A JavaScript
  \<^verbatim>\<open>Map\<close> iterates in insertion order and \<^verbatim>\<open>set\<close> on a key that is present
  replaces the value and keeps the key's position, so the map is an association list
  with that \<open>Map_set\<close>. The task objects are reached only through the map, hence
  mutating a task object in place is replacing the value stored under its key.
\<close>

type_synonym ('p, 'r) ExecutionDAG = "(string \<times> ('p, 'r) PlanNode) list"

fun Map_set :: "('k \<times> 'v) list \<Rightarrow> 'k \<Rightarrow> 'v \<Rightarrow> ('k \<times> 'v) list" where
  "Map_set [] k v = [(k, v)]"
| "Map_set ((k', v') # m) k v = (if k' = k then (k, v) # m else (k', v') # Map_set m k v)"

definition newExecutionDAG :: "('p, 'r) PlanNode list \<Rightarrow> ('p, 'r) ExecutionDAG" where
  "newExecutionDAG tasks = foldl (\<lambda>m task. Map_set m (node_id task) task) [] tasks"

definition addTask :: "('p, 'r) ExecutionDAG \<Rightarrow> ('p, 'r) PlanNode \<Rightarrow> ('p, 'r) ExecutionDAG" where
  "addTask dag task = Map_set dag (node_id task) task"

definition getTask :: "('p, 'r) ExecutionDAG \<Rightarrow> string \<Rightarrow> ('p, 'r) PlanNode option" where
  "getTask dag i = map_of dag i"

definition getAllTasks :: "('p, 'r) ExecutionDAG \<Rightarrow> ('p, 'r) PlanNode list" where
  "getAllTasks dag = map snd dag"

definition updateTask ::
  "('p, 'r) ExecutionDAG \<Rightarrow> string \<Rightarrow> 'r PartialPlanNode \<Rightarrow> ('p, 'r) ExecutionDAG" where
  "updateTask dag i updates =
     (case getTask dag i of
        None \<Rightarrow> dag
      | Some task \<Rightarrow> Map_set dag i (assign task updates))"

text \<open>
  \<^verbatim>\<open>getReadyTasks\<close>: the \<^verbatim>\<open>for\<close> loop over the map's values with the accumulator
  \<^verbatim>\<open>ready\<close>; \<^verbatim>\<open>dep && dep.status === 'completed'\<close> is false for a dependency id that
  is not in the map.
\<close>

definition allDepsCompleted :: "('p, 'r) ExecutionDAG \<Rightarrow> ('p, 'r) PlanNode \<Rightarrow> bool" where
  "allDepsCompleted dag task =
     list_all (\<lambda>depId. case getTask dag depId of
                          None \<Rightarrow> False
                        | Some dep \<Rightarrow> status dep = Completed) (dependsOn task)"

fun readyLoop ::
  "('p, 'r) ExecutionDAG \<Rightarrow> ('p, 'r) PlanNode list \<Rightarrow> ('p, 'r) PlanNode list \<Rightarrow> ('p, 'r) PlanNode list" where
  "readyLoop dag [] ready = ready"
| "readyLoop dag (task # rest) ready =
     (if status task \<noteq> Pending then readyLoop dag rest ready
      else if allDepsCompleted dag task then readyLoop dag rest (ready @ [task])
      else readyLoop dag rest ready)"

definition getReadyTasks :: "('p, 'r) ExecutionDAG \<Rightarrow> ('p, 'r) PlanNode list" where
  "getReadyTasks dag = readyLoop dag (getAllTasks dag) []"

definition markExecuting :: "('p, 'r) ExecutionDAG \<Rightarrow> string \<Rightarrow> ('p, 'r) ExecutionDAG" where
  "markExecuting dag taskId =
     updateTask dag taskId \<lparr>new_status = Some Executing, new_result = None, new_error = None\<rparr>"

definition completeTask :: "('p, 'r) ExecutionDAG \<Rightarrow> string \<Rightarrow> 'r \<Rightarrow> ('p, 'r) ExecutionDAG" where
  "completeTask dag taskId res =
     updateTask dag taskId \<lparr>new_status = Some Completed, new_result = Some res, new_error = None\<rparr>"

definition failTask :: "('p, 'r) ExecutionDAG \<Rightarrow> string \<Rightarrow> string \<Rightarrow> ('p, 'r) ExecutionDAG" where
  "failTask dag taskId err =
     updateTask dag taskId \<lparr>new_status = Some Failed, new_result = None, new_error = Some err\<rparr>"

definition isComplete :: "('p, 'r) ExecutionDAG \<Rightarrow> bool" where
  "isComplete dag = list_all (\<lambda>task. status task = Completed) (getAllTasks dag)"

definition hasFailed :: "('p, 'r) ExecutionDAG \<Rightarrow> bool" where
  "hasFailed dag = list_ex (\<lambda>task. status task = Failed) (getAllTasks dag)"

definition getFailedTasks :: "('p, 'r) ExecutionDAG \<Rightarrow> ('p, 'r) PlanNode list" where
  "getFailedTasks dag = filter (\<lambda>task. status task = Failed) (getAllTasks dag)"

definition getStats :: "('p, 'r) ExecutionDAG \<Rightarrow> DAGStats" where
  "getStats dag =
     (let tasks = getAllTasks dag in
      \<lparr> total = length tasks,
        pending = length (filter (\<lambda>t. status t = Pending) tasks),
        executing = length (filter (\<lambda>t. status t = Executing) tasks),
        completed = length (filter (\<lambda>t. status t = Completed) tasks),
        failed = length (filter (\<lambda>t. status t = Failed) tasks) \<rparr>)"

text \<open>
  \<^verbatim>\<open>getDependencyResults\<close> builds a plain object keyed by dependency id; a dependency
  that is missing or whose result is \<^verbatim>\<open>undefined\<close> gets no entry. The map holds the own
  properties of that object: the assignment \<^verbatim>\<open>results[depId] = dep.result\<close> creates one
  for every key but \<^verbatim>\<open>__proto__\<close>, which goes to the prototype setter of the object and
  creates none.
\<close>

definition setProperty :: "(string \<rightharpoonup> 'r) \<Rightarrow> string \<Rightarrow> 'r \<Rightarrow> (string \<rightharpoonup> 'r)" where
  "setProperty obj key v = (if key = ''__proto__'' then obj else obj(key \<mapsto> v))"

fun depResultsLoop ::
  "('p, 'r) ExecutionDAG \<Rightarrow> string list \<Rightarrow> (string \<rightharpoonup> 'r) \<Rightarrow> (string \<rightharpoonup> 'r)" where
  "depResultsLoop dag [] results = results"
| "depResultsLoop dag (depId # rest) results =
     (case getTask dag depId of
        None \<Rightarrow> depResultsLoop dag rest results
      | Some dep \<Rightarrow>
          (case result dep of
             None \<Rightarrow> depResultsLoop dag rest results
           | Some r \<Rightarrow> depResultsLoop dag rest (setProperty results depId r)))"

definition getDependencyResults ::
  "('p, 'r) ExecutionDAG \<Rightarrow> ('p, 'r) PlanNode \<Rightarrow> (string \<rightharpoonup> 'r)" where
  "getDependencyResults dag task = depResultsLoop dag (dependsOn task) Map.empty"

text \<open>
  The representation invariant of the map: keys are unique (a \<^verbatim>\<open>Map\<close> has one entry
  per key) and every task is stored under its own id (the constructor and
  \<^verbatim>\<open>addTask\<close> are the only writers of keys, both with \<^verbatim>\<open>task.id\<close>).
\<close>

definition dag_inv :: "('p, 'r) ExecutionDAG \<Rightarrow> bool" where
  "dag_inv dag = (distinct (map fst dag) \<and> list_all (\<lambda>(k, task). node_id task = k) dag)"

section \<open>Basic facts about the map\<close>

lemma map_of_Map_set: "map_of (Map_set m k v) k' = (if k' = k then Some v else map_of m k')"
  by (induction m) auto

lemma fst_Map_set_present: "map_of m k = Some v' \<Longrightarrow> map fst (Map_set m k v) = map fst m"
  by (induction m) (auto split: if_splits)

lemma set_fst_Map_set: "fst ` set (Map_set m k v) = insert k (fst ` set m)"
  by (induction m) force+

lemma distinct_Map_set: "distinct (map fst m) \<Longrightarrow> distinct (map fst (Map_set m k v))"
proof (induction m)
  case Nil
  then show ?case by simp
next
  case (Cons a m)
  obtain k' v' where a: "a = (k', v')" by (cases a)
  show ?case
  proof (cases "k' = k")
    case True
    with Cons.prems a show ?thesis by simp
  next
    case False
    have "k' \<notin> set (map fst (Map_set m k v))"
      using Cons.prems a False by (simp add: set_fst_Map_set)
    with Cons a False show ?thesis by simp
  qed
qed

lemma Map_set_values:
  "list_all P m \<Longrightarrow> P (k, v) \<Longrightarrow> list_all P (Map_set m k v)"
  by (induction m) auto

lemma dag_inv_Map_set: "dag_inv dag \<Longrightarrow> node_id task = k \<Longrightarrow> dag_inv (Map_set dag k task)"
  unfolding dag_inv_def by (simp add: distinct_Map_set Map_set_values)



lemma node_id_assign [simp]: "node_id (assign task u) = node_id task"
  by (simp add: assign_def)

lemma dependsOn_assign [simp]: "dependsOn (assign task u) = dependsOn task"
  by (simp add: assign_def)

lemma getTask_in_set: "getTask dag i = Some task \<Longrightarrow> (i, task) \<in> set dag"
  unfolding getTask_def by (rule map_of_SomeD)

lemma dag_inv_getTask_id: "dag_inv dag \<Longrightarrow> getTask dag i = Some task \<Longrightarrow> node_id task = i"
  by (auto simp: dag_inv_def list_all_iff dest!: getTask_in_set)

lemma dag_inv_updateTask: "dag_inv dag \<Longrightarrow> dag_inv (updateTask dag i u)"
  unfolding updateTask_def
  by (auto split: option.splits intro!: dag_inv_Map_set dest: dag_inv_getTask_id)

lemma getTask_updateTask_other: "k \<noteq> i \<Longrightarrow> getTask (updateTask dag i u) k = getTask dag k"
  unfolding updateTask_def getTask_def by (simp add: map_of_Map_set split: option.splits)

lemma getTask_updateTask_same:
  "getTask (updateTask dag i u) i = map_option (\<lambda>task. assign task u) (getTask dag i)"
  unfolding updateTask_def getTask_def by (simp add: map_of_Map_set split: option.splits)

lemma keys_updateTask: "map fst (updateTask dag i u) = map fst dag"
  unfolding updateTask_def getTask_def by (simp add: fst_Map_set_present split: option.splits)

lemma updateTask_absent: "getTask dag i = None \<Longrightarrow> updateTask dag i u = dag"
  by (simp add: updateTask_def)


lemma readyLoop_filter:
  "readyLoop dag tasks ready =
     ready @ filter (\<lambda>task. status task = Pending \<and> allDepsCompleted dag task) tasks"
  by (induction tasks arbitrary: ready) auto

lemma getReadyTasks_filter:
  "getReadyTasks dag =
     filter (\<lambda>task. status task = Pending \<and> allDepsCompleted dag task) (getAllTasks dag)"
  by (simp add: getReadyTasks_def readyLoop_filter)


lemma getTask_Some_in_getAllTasks: "getTask dag i = Some task \<Longrightarrow> task \<in> set (getAllTasks dag)"
  by (force simp: getAllTasks_def dest: getTask_in_set)

lemma getTask_None_iff: "getTask dag i = None \<longleftrightarrow> i \<notin> set (map fst dag)"
  by (simp add: getTask_def map_of_eq_None_iff)

lemma allDepsCompleted_iff:
  "allDepsCompleted dag task \<longleftrightarrow>
     (\<forall>depId \<in> set (dependsOn task). \<exists>dep. getTask dag depId = Some dep \<and> status dep = Completed)"
  by (auto simp: allDepsCompleted_def list_all_iff split: option.splits)

section \<open>Sequences of status transitions\<close>

text \<open>
  A call of one of the three transition methods, and a sequence of such calls applied to
  a graph from left to right.
\<close>

datatype 'r Transition =
  MarkExecuting string
| CompleteTask string 'r
| FailTask string string

fun target :: "'r Transition \<Rightarrow> string" where
  "target (MarkExecuting taskId) = taskId"
| "target (CompleteTask taskId res) = taskId"
| "target (FailTask taskId err) = taskId"

fun applyTransition :: "('p, 'r) ExecutionDAG \<Rightarrow> 'r Transition \<Rightarrow> ('p, 'r) ExecutionDAG" where
  "applyTransition dag (MarkExecuting taskId) = markExecuting dag taskId"
| "applyTransition dag (CompleteTask taskId res) = completeTask dag taskId res"
| "applyTransition dag (FailTask taskId err) = failTask dag taskId err"

definition applyTransitions ::
  "('p, 'r) ExecutionDAG \<Rightarrow> 'r Transition list \<Rightarrow> ('p, 'r) ExecutionDAG" where
  "applyTransitions dag trs = foldl applyTransition dag trs"

lemma getTask_applyTransition_other:
  "target tr \<noteq> i \<Longrightarrow> getTask (applyTransition dag tr) i = getTask dag i"
  by (cases tr)
     (simp_all add: markExecuting_def completeTask_def failTask_def getTask_updateTask_other)

lemma getTask_applyTransitions_other:
  "\<forall>tr \<in> set trs. target tr \<noteq> i \<Longrightarrow> getTask (applyTransitions dag trs) i = getTask dag i"
  unfolding applyTransitions_def
  by (induction trs arbitrary: dag) (simp_all add: getTask_applyTransition_other)

section \<open>Validation: cycle detection by three-colour depth-first search\<close>

fun join :: "string list \<Rightarrow> string \<Rightarrow> string" where
  "join [] sep = []"
| "join [x] sep = x"
| "join (x # y # ys) sep = x @ sep @ join (y # ys) sep"

fun indexOf :: "'a list \<Rightarrow> 'a \<Rightarrow> int" where
  "indexOf [] x = -1"
| "indexOf (y # ys) x = (if y = x then 0 else (let i = indexOf ys x in if i < 0 then -1 else i + 1))"

definition slice :: "'a list \<Rightarrow> int \<Rightarrow> 'a list" where
  "slice xs start = (if start < 0 then drop (nat (int (length xs) + start)) xs else drop (nat start) xs)"

record DfsState =
  colors :: "string \<rightharpoonup> nat"
  recStack :: "string list"
  console :: "string list"

definition colorOf :: "DfsState \<Rightarrow> string \<Rightarrow> nat" where
  "colorOf s i = (case colors s i of None \<Rightarrow> 0 | Some c \<Rightarrow> c)"

definition enter :: "DfsState \<Rightarrow> string \<Rightarrow> DfsState" where
  "enter s taskId = s\<lparr>colors := (colors s)(taskId \<mapsto> 1), recStack := recStack s @ [taskId]\<rparr>"

definition leave :: "DfsState \<Rightarrow> string \<Rightarrow> DfsState" where
  "leave s taskId = s\<lparr>colors := (colors s)(taskId \<mapsto> 2), recStack := butlast (recStack s)\<rparr>"

definition cycleLine :: "string list \<Rightarrow> string" where
  "cycleLine cycle = ''Cycle detected: '' @ join cycle '' -> ''"

definition reportCycle :: "DfsState \<Rightarrow> string \<Rightarrow> DfsState" where
  "reportCycle s depId =
     (let cycleStart = indexOf (recStack s) depId;
          cycle = slice (recStack s) cycleStart @ [depId]
      in s\<lparr>console := console s @ [cycleLine cycle]\<rparr>)"

function dfs :: "('p, 'r) ExecutionDAG \<Rightarrow> string \<Rightarrow> DfsState \<Rightarrow> bool \<times> DfsState"
  and dfsDeps :: "('p, 'r) ExecutionDAG \<Rightarrow> string list \<Rightarrow> DfsState \<Rightarrow> bool \<times> DfsState"
where
  "dfs dag taskId s =
     (case getTask dag taskId of
        None \<Rightarrow> (False, leave (enter s taskId) taskId)
      | Some task \<Rightarrow>
          (let r = dfsDeps dag (dependsOn task) (enter s taskId)
           in if fst r then r else (False, leave (snd r) taskId)))"
| "dfsDeps dag [] s = (False, s)"
| "dfsDeps dag (depId # rest) s =
     (if colorOf s depId = 1 then (True, reportCycle s depId)
      else if colorOf s depId = 0 then
        (let r = dfs dag depId s in if fst r then r else dfsDeps dag rest (snd r))
      else dfsDeps dag rest s)"
  by pat_completeness auto


lemma colorOf_enter [simp]: "colorOf (enter s t) v = (if v = t then 1 else colorOf s v)"
  by (simp add: colorOf_def enter_def)

lemma colorOf_leave [simp]: "colorOf (leave s t) v = (if v = t then 2 else colorOf s v)"
  by (simp add: colorOf_def leave_def)

lemma colorOf_reportCycle [simp]: "colorOf (reportCycle s d) v = colorOf s v"
  by (simp add: colorOf_def reportCycle_def Let_def)

lemma dfs_keeps_nonwhite_dom:
  "dfs_dfsDeps_dom (Inl (dag, taskId, s)) \<Longrightarrow>
     colorOf (snd (dfs dag taskId s)) v = 0 \<longrightarrow> colorOf s v = 0"
  "dfs_dfsDeps_dom (Inr (dag, deps, s)) \<Longrightarrow>
     colorOf (snd (dfsDeps dag deps s)) v = 0 \<longrightarrow> colorOf s v = 0"
proof (induction dag taskId s and dag deps s rule: dfs_dfsDeps.pinduct)
  case (1 dag taskId s)
  then show ?case
    by (auto simp: dfs.psimps Let_def split: option.splits)
next
  case (2 dag s)
  then show ?case by (simp add: dfsDeps.psimps)
next
  case (3 dag depId rest s)
  then show ?case
    by (auto simp: dfsDeps.psimps Let_def)
qed

definition nodes_of :: "('p, 'r) ExecutionDAG \<Rightarrow> string set" where
  "nodes_of dag = fst ` set dag \<union> (\<Union>(k, task) \<in> set dag. set (dependsOn task))"

lemma finite_nodes_of [simp]: "finite (nodes_of dag)"
  by (auto simp: nodes_of_def)

lemma deps_in_nodes_of: "getTask dag i = Some task \<Longrightarrow> set (dependsOn task) \<subseteq> nodes_of dag"
  by (force simp: nodes_of_def dest: getTask_in_set)

definition whiteIn :: "string set \<Rightarrow> DfsState \<Rightarrow> string set" where
  "whiteIn A s = {v \<in> A. colorOf s v = 0}"

lemma finite_whiteIn [simp]: "finite A \<Longrightarrow> finite (whiteIn A s)"
  by (simp add: whiteIn_def)

termination dfs
proof (relation "inv_image (finite_psubset <*lex*> less_than <*lex*> less_than)
    (\<lambda>x. case x of
       Inl (dag, taskId, s) \<Rightarrow> (whiteIn (nodes_of dag) s - {taskId}, 1::nat, 0::nat)
     | Inr (dag, deps, s) \<Rightarrow> (whiteIn (nodes_of dag \<union> set deps) s, 0, length deps))", goal_cases)
  case 1
  show ?case by (intro wf_inv_image wf_lex_prod wf_finite_psubset wf_less_than)
next
  case (2 dag taskId s task)
  have "whiteIn (nodes_of dag \<union> set (dependsOn task)) (enter s taskId)
        = whiteIn (nodes_of dag) s - {taskId}"
    using deps_in_nodes_of [OF 2] by (auto simp: whiteIn_def)
  then show ?case by simp
next
  case (3 dag depId rest s)
  have "whiteIn (nodes_of dag) s - {depId} \<subset> whiteIn (nodes_of dag \<union> set (depId # rest)) s"
    using 3 by (auto simp: whiteIn_def)
  then show ?case by (simp add: finite_psubset_def)
next
  case (4 dag depId rest s r)
  have "whiteIn (nodes_of dag \<union> set rest) (snd r) \<subseteq> whiteIn (nodes_of dag \<union> set (depId # rest)) s"
    using 4 dfs_keeps_nonwhite_dom(1) [of dag depId s] by (auto simp: whiteIn_def)
  then show ?case by (auto simp: finite_psubset_def)
next
  case (5 dag depId rest s)
  have "whiteIn (nodes_of dag \<union> set rest) s \<subseteq> whiteIn (nodes_of dag \<union> set (depId # rest)) s"
    by (auto simp: whiteIn_def)
  then show ?case by (auto simp: finite_psubset_def)
qed



declare dfs.simps [simp del]

fun hasCyclesLoop :: "('p, 'r) ExecutionDAG \<Rightarrow> string list \<Rightarrow> DfsState \<Rightarrow> bool \<times> DfsState" where
  "hasCyclesLoop dag [] s = (False, s)"
| "hasCyclesLoop dag (i # ids) s =
     (if colors s i = Some 0 then
        (let r = dfs dag i s in if fst r then r else hasCyclesLoop dag ids (snd r))
      else hasCyclesLoop dag ids s)"

definition initialDfsState :: "('p, 'r) ExecutionDAG \<Rightarrow> DfsState" where
  "initialDfsState dag =
     \<lparr> colors = foldl (\<lambda>c i. c(i \<mapsto> 0)) Map.empty (map fst dag), recStack = [], console = [] \<rparr>"

definition hasCyclesRun :: "('p, 'r) ExecutionDAG \<Rightarrow> bool \<times> DfsState" where
  "hasCyclesRun dag = hasCyclesLoop dag (map fst dag) (initialDfsState dag)"

definition hasCycles :: "('p, 'r) ExecutionDAG \<Rightarrow> bool" where
  "hasCycles dag = fst (hasCyclesRun dag)"

definition edges :: "('p, 'r) ExecutionDAG \<Rightarrow> (string \<times> string) set" where
  "edges dag = {(u, v). \<exists>task. getTask dag u = Some task \<and> v \<in> set (dependsOn task)}"

definition black :: "DfsState \<Rightarrow> string set" where
  "black s = {v. colorOf s v \<noteq> 0 \<and> colorOf s v \<noteq> 1}"

definition blackInv :: "('p, 'r) ExecutionDAG \<Rightarrow> DfsState \<Rightarrow> bool" where
  "blackInv dag s =
     ((\<forall>u v. u \<in> black s \<and> (u, v) \<in> edges dag \<longrightarrow> v \<in> black s) \<and>
      (\<forall>u. u \<in> black s \<longrightarrow> (u, u) \<notin> (edges dag)\<^sup>+))"

definition colorsStable :: "DfsState \<Rightarrow> DfsState \<Rightarrow> bool" where
  "colorsStable s s' =
     ((\<forall>v. colorOf s v \<noteq> 0 \<longrightarrow> colorOf s' v = colorOf s v) \<and>
      (\<forall>v. colorOf s' v = 1 \<longrightarrow> colorOf s v = 1))"

lemma stableD1: "colorsStable s s' \<Longrightarrow> colorOf s v \<noteq> 0 \<Longrightarrow> colorOf s' v = colorOf s v"
  unfolding colorsStable_def by blast

lemma stableD2: "colorsStable s s' \<Longrightarrow> colorOf s' v = 1 \<Longrightarrow> colorOf s v = 1"
  unfolding colorsStable_def by blast

lemma stableI:
  "(\<And>v. colorOf s v \<noteq> 0 \<Longrightarrow> colorOf s' v = colorOf s v) \<Longrightarrow>
   (\<And>v. colorOf s' v = 1 \<Longrightarrow> colorOf s v = 1) \<Longrightarrow> colorsStable s s'"
  unfolding colorsStable_def by blast

lemma stable_refl [simp]: "colorsStable s s"
  by (rule stableI) simp_all

lemma stable_trans:
  assumes "colorsStable s s'" "colorsStable s' s''"
  shows "colorsStable s s''"
proof (rule stableI)
  fix v assume nz: "colorOf s v \<noteq> 0"
  have 1: "colorOf s' v = colorOf s v" by (rule stableD1 [OF assms(1) nz])
  with nz have "colorOf s' v \<noteq> 0" by simp
  then have "colorOf s'' v = colorOf s' v" by (rule stableD1 [OF assms(2)])
  with 1 show "colorOf s'' v = colorOf s v" by simp
next
  fix v assume "colorOf s'' v = 1"
  then have "colorOf s' v = 1" by (rule stableD2 [OF assms(2)])
  then show "colorOf s v = 1" by (rule stableD2 [OF assms(1)])
qed

lemma stable_black:
  assumes "colorsStable s s'" "v \<in> black s"
  shows "v \<in> black s'"
proof -
  from assms(2) have nz: "colorOf s v \<noteq> 0" and n1: "colorOf s v \<noteq> 1"
    by (simp_all add: black_def)
  have "colorOf s' v = colorOf s v" by (rule stableD1 [OF assms(1) nz])
  with nz n1 show ?thesis by (simp add: black_def)
qed

lemma black_closed_rtrancl:
  assumes "(u, v) \<in> (edges dag)\<^sup>*" "u \<in> black s" "blackInv dag s"
  shows "v \<in> black s"
  using assms by (induction rule: rtrancl_induct) (auto simp: blackInv_def)

lemma blackInv_leave:
  assumes inv: "blackInv dag s" and grey: "colorOf s t = 1"
    and succ: "\<forall>v. (t, v) \<in> edges dag \<longrightarrow> v \<in> black s"
  shows "blackInv dag (leave s t)"
proof -
  have bl: "black (leave s t) = insert t (black s)"
    by (auto simp: black_def)
  have nb: "t \<notin> black s" using grey by (simp add: black_def)
  have closed: "v \<in> black (leave s t)" if "u \<in> black (leave s t)" "(u, v) \<in> edges dag" for u v
    using that inv succ by (auto simp: bl blackInv_def)
  have acyc: "(u, u) \<notin> (edges dag)\<^sup>+" if "u \<in> black (leave s t)" for u
  proof (cases "u = t")
    case True
    show ?thesis
    proof
      assume "(u, u) \<in> (edges dag)\<^sup>+"
      then obtain v where v: "(t, v) \<in> edges dag" "(v, t) \<in> (edges dag)\<^sup>*"
        using True by (auto dest: tranclD)
      from v(1) succ have "v \<in> black s" by simp
      with v(2) inv have "t \<in> black s" by (auto intro: black_closed_rtrancl)
      with nb show False by simp
    qed
  next
    case False
    with that inv show ?thesis by (auto simp: bl blackInv_def)
  qed
  from closed acyc show ?thesis unfolding blackInv_def by blast
qed

lemma blackInv_enter: "colorOf s t = 0 \<Longrightarrow> blackInv dag (enter s t) = blackInv dag s"
proof -
  assume "colorOf s t = 0"
  then have "black (enter s t) = black s" by (auto simp: black_def)
  then show ?thesis by (simp add: blackInv_def)
qed

lemma stable_enter_leave:
  assumes w: "colorOf s t = 0" and st: "colorsStable (enter s t) s2"
  shows "colorsStable s (leave s2 t)"
proof (rule stableI)
  fix v assume nz: "colorOf s v \<noteq> 0"
  with w have vt: "v \<noteq> t" by auto
  with nz have "colorOf (enter s t) v \<noteq> 0" by simp
  then have "colorOf s2 v = colorOf (enter s t) v" by (rule stableD1 [OF st])
  with vt show "colorOf (leave s2 t) v = colorOf s v" by simp
next
  fix v assume g: "colorOf (leave s2 t) v = 1"
  then have vt: "v \<noteq> t" by (auto split: if_splits)
  with g have "colorOf s2 v = 1" by simp
  then have "colorOf (enter s t) v = 1" by (rule stableD2 [OF st])
  with vt show "colorOf s v = 1" by simp
qed

lemma dfs_false_inv:
  "blackInv dag s \<Longrightarrow> colorOf s taskId = 0 \<Longrightarrow> \<not> fst (dfs dag taskId s) \<Longrightarrow>
     blackInv dag (snd (dfs dag taskId s)) \<and> colorOf (snd (dfs dag taskId s)) taskId = 2 \<and>
     colorsStable s (snd (dfs dag taskId s))"
  "blackInv dag s \<Longrightarrow> \<not> fst (dfsDeps dag deps s) \<Longrightarrow>
     blackInv dag (snd (dfsDeps dag deps s)) \<and> set deps \<subseteq> black (snd (dfsDeps dag deps s)) \<and>
     colorsStable s (snd (dfsDeps dag deps s))"
proof (induction dag taskId s and dag deps s rule: dfs_dfsDeps.induct)
  case (1 dag taskId s)
  show ?case
  proof (cases "getTask dag taskId")
    case None
    have "blackInv dag (enter s taskId)" using 1(2,3) by (simp add: blackInv_enter)
    moreover have "\<forall>v. (taskId, v) \<in> edges dag \<longrightarrow> v \<in> black (enter s taskId)"
      using None by (simp add: edges_def)
    ultimately have "blackInv dag (leave (enter s taskId) taskId)"
      by (intro blackInv_leave) simp_all
    moreover have "colorsStable s (leave (enter s taskId) taskId)"
      using 1(3) by (intro stable_enter_leave stable_refl)
    ultimately show ?thesis using None by (simp add: dfs.simps [of dag taskId s])
  next
    case (Some task)
    let ?r = "dfsDeps dag (dependsOn task) (enter s taskId)"
    have nf: "\<not> fst ?r" using 1(4) Some
      by (auto simp: dfs.simps [of dag taskId s] Let_def split: if_splits)
    have inv1: "blackInv dag (enter s taskId)" using 1(2,3) by (simp add: blackInv_enter)
    from 1(1) [OF Some inv1 nf]
    have ih: "blackInv dag (snd ?r)" "set (dependsOn task) \<subseteq> black (snd ?r)"
      "colorsStable (enter s taskId) (snd ?r)" by simp_all
    have "colorOf (enter s taskId) taskId \<noteq> 0" by simp
    from stableD1 [OF ih(3) this] have grey: "colorOf (snd ?r) taskId = 1" by simp
    have "\<forall>v. (taskId, v) \<in> edges dag \<longrightarrow> v \<in> black (snd ?r)"
      using ih(2) Some by (auto simp: edges_def)
    with ih(1) grey have "blackInv dag (leave (snd ?r) taskId)" by (intro blackInv_leave)
    moreover have "colorsStable s (leave (snd ?r) taskId)"
      using 1(3) ih(3) by (rule stable_enter_leave)
    ultimately show ?thesis using Some nf by (simp add: dfs.simps [of dag taskId s] Let_def)
  qed
next
  case (2 dag s)
  then show ?case by simp
next
  case (3 dag depId rest s)
  have not1: "colorOf s depId \<noteq> 1" using 3(5) by auto
  show ?case
  proof (cases "colorOf s depId = 0")
    case True
    let ?r = "dfs dag depId s"
    have nf: "\<not> fst ?r" using 3(5) not1 True by (auto simp: Let_def split: if_splits)
    from 3(1) [OF not1 True 3(4) True nf]
    have ih1: "blackInv dag (snd ?r)" "colorOf (snd ?r) depId = 2" "colorsStable s (snd ?r)"
      by simp_all
    have nf2: "\<not> fst (dfsDeps dag rest (snd ?r))"
      using 3(5) not1 True nf by (simp add: Let_def)
    from 3(2) [OF not1 True refl nf ih1(1) nf2]
    have ih2: "blackInv dag (snd (dfsDeps dag rest (snd ?r)))"
      "set rest \<subseteq> black (snd (dfsDeps dag rest (snd ?r)))"
      "colorsStable (snd ?r) (snd (dfsDeps dag rest (snd ?r)))" by simp_all
    have "depId \<in> black (snd ?r)" using ih1(2) by (simp add: black_def)
    with ih2(3) have "depId \<in> black (snd (dfsDeps dag rest (snd ?r)))" by (rule stable_black)
    moreover have "colorsStable s (snd (dfsDeps dag rest (snd ?r)))"
      using ih1(3) ih2(3) by (rule stable_trans)
    ultimately show ?thesis using ih2 not1 True nf by (simp add: Let_def)
  next
    case False
    have nf2: "\<not> fst (dfsDeps dag rest s)" using 3(5) not1 False by simp
    from 3(3) [OF not1 False 3(4) nf2]
    have ih: "blackInv dag (snd (dfsDeps dag rest s))"
      "set rest \<subseteq> black (snd (dfsDeps dag rest s))"
      "colorsStable s (snd (dfsDeps dag rest s))" by simp_all
    have "depId \<in> black s" using not1 False by (simp add: black_def)
    with ih(3) have "depId \<in> black (snd (dfsDeps dag rest s))" by (rule stable_black)
    with ih show ?thesis using not1 False by simp
  qed
qed


lemma dfs_keeps_dom:
  "colors s v \<noteq> None \<longrightarrow> colors (snd (dfs dag taskId s)) v \<noteq> None"
  "colors s v \<noteq> None \<longrightarrow> colors (snd (dfsDeps dag deps s)) v \<noteq> None"
proof (induction dag taskId s and dag deps s rule: dfs_dfsDeps.induct)
  case (1 dag taskId s)
  then show ?case
    by (auto simp: dfs.simps [of dag taskId s] Let_def enter_def leave_def split: option.splits)
next
  case (2 dag s)
  then show ?case by simp
next
  case (3 dag depId rest s)
  then show ?case by (auto simp: Let_def reportCycle_def)
qed

lemma hasCyclesLoop_false_inv:
  "blackInv dag s \<Longrightarrow> \<forall>v. colorOf s v \<noteq> 1 \<Longrightarrow> \<forall>i \<in> set ids. colors s i \<noteq> None \<Longrightarrow>
   \<not> fst (hasCyclesLoop dag ids s) \<Longrightarrow>
     blackInv dag (snd (hasCyclesLoop dag ids s)) \<and>
     set ids \<subseteq> black (snd (hasCyclesLoop dag ids s)) \<and>
     colorsStable s (snd (hasCyclesLoop dag ids s))"
proof (induction ids arbitrary: s)
  case Nil
  then show ?case by simp
next
  case (Cons i ids)
  show ?case
  proof (cases "colors s i = Some 0")
    case True
    let ?r = "dfs dag i s"
    have white: "colorOf s i = 0" using True by (simp add: colorOf_def)
    have nf: "\<not> fst ?r" using Cons.prems(4) True by (auto simp: Let_def split: if_splits)
    from dfs_false_inv(1) [OF Cons.prems(1) white nf]
    have r: "blackInv dag (snd ?r)" "colorOf (snd ?r) i = 2" "colorsStable s (snd ?r)"
      by simp_all
    have nogrey: "\<forall>v. colorOf (snd ?r) v \<noteq> 1"
      using stableD2 [OF r(3)] Cons.prems(2) by blast
    have dom: "\<forall>j \<in> set ids. colors (snd ?r) j \<noteq> None"
      using Cons.prems(3) dfs_keeps_dom(1) [of s _ dag i] by simp
    have nf2: "\<not> fst (hasCyclesLoop dag ids (snd ?r))"
      using Cons.prems(4) True nf by (simp add: Let_def)
    from Cons.IH [OF r(1) nogrey dom nf2]
    have ih: "blackInv dag (snd (hasCyclesLoop dag ids (snd ?r)))"
      "set ids \<subseteq> black (snd (hasCyclesLoop dag ids (snd ?r)))"
      "colorsStable (snd ?r) (snd (hasCyclesLoop dag ids (snd ?r)))" by simp_all
    have "i \<in> black (snd ?r)" using r(2) by (simp add: black_def)
    with ih(3) have "i \<in> black (snd (hasCyclesLoop dag ids (snd ?r)))" by (rule stable_black)
    moreover have "colorsStable s (snd (hasCyclesLoop dag ids (snd ?r)))"
      using r(3) ih(3) by (rule stable_trans)
    ultimately show ?thesis using ih True nf by (simp add: Let_def)
  next
    case False
    from Cons.prems(3) obtain c where c: "colors s i = Some c" by auto
    with False have "colorOf s i \<noteq> 0" by (simp add: colorOf_def)
    with Cons.prems(2) have bl: "i \<in> black s" by (simp add: black_def)
    have nf2: "\<not> fst (hasCyclesLoop dag ids s)" using Cons.prems(4) False by simp
    have dom: "\<forall>j \<in> set ids. colors s j \<noteq> None" using Cons.prems(3) by simp
    from Cons.IH [OF Cons.prems(1,2) dom nf2]
    have ih: "blackInv dag (snd (hasCyclesLoop dag ids s))"
      "set ids \<subseteq> black (snd (hasCyclesLoop dag ids s))"
      "colorsStable s (snd (hasCyclesLoop dag ids s))" by simp_all
    from ih(3) bl have "i \<in> black (snd (hasCyclesLoop dag ids s))" by (rule stable_black)
    with ih show ?thesis using False by simp
  qed
qed

lemma foldl_init_colors:
  "foldl (\<lambda>c i. c(i \<mapsto> 0::nat)) m ks v = (if v \<in> set ks then Some 0 else m v)"
  by (induction ks arbitrary: m) auto

lemma colorOf_initial [simp]: "colorOf (initialDfsState dag) v = 0"
  by (simp add: colorOf_def initialDfsState_def foldl_init_colors)

lemma colors_initial: "i \<in> fst ` set dag \<Longrightarrow> colors (initialDfsState dag) i = Some 0"
  by (simp add: initialDfsState_def foldl_init_colors)

lemma hasCycles_complete:
  assumes cyc: "(v, v) \<in> (edges dag)\<^sup>+"
  shows "hasCycles dag"
proof (rule ccontr)
  assume "\<not> hasCycles dag"
  then have nf: "\<not> fst (hasCyclesLoop dag (map fst dag) (initialDfsState dag))"
    by (simp add: hasCycles_def hasCyclesRun_def)
  let ?s' = "snd (hasCyclesLoop dag (map fst dag) (initialDfsState dag))"
  have inv0: "blackInv dag (initialDfsState dag)"
    by (simp add: blackInv_def black_def)
  have ng: "\<forall>v. colorOf (initialDfsState dag) v \<noteq> 1" by simp
  have dom: "\<forall>i \<in> set (map fst dag). colors (initialDfsState dag) i \<noteq> None"
    by (simp add: colors_initial)
  from hasCyclesLoop_false_inv [OF inv0 ng dom nf]
  have fin: "blackInv dag ?s'" "set (map fst dag) \<subseteq> black ?s'" by simp_all
  from cyc obtain w where "(v, w) \<in> edges dag" by (auto dest: tranclD)
  then obtain task where "getTask dag v = Some task" by (auto simp: edges_def)
  then have "v \<in> fst ` set dag" by (force dest: getTask_in_set)
  with fin(2) have "v \<in> black ?s'" by auto
  with fin(1) have "(v, v) \<notin> (edges dag)\<^sup>+" by (simp add: blackInv_def)
  with cyc show False by simp
qed

text \<open>
  \<^verbatim>\<open>validate\<close>: the first pass pushes one message per dependency id that is not a key
  of the map, the second pass pushes one fixed message when \<^verbatim>\<open>hasCycles()\<close> is true.
\<close>

definition missingDependencyMessage :: "string \<Rightarrow> string \<Rightarrow> string" where
  "missingDependencyMessage taskId depId =
     ''Task '' @ [CHR 0x22] @ taskId @ [CHR 0x22] @ '' depends on non-existent task '' @
     [CHR 0x22] @ depId @ [CHR 0x22]"

definition cycleMessage :: string where
  "cycleMessage = ''Cycle detected in task dependencies''"

definition hasKey :: "('p, 'r) ExecutionDAG \<Rightarrow> string \<Rightarrow> bool" where
  "hasKey dag i = (i \<in> set (map fst dag))"

fun checkDependencies ::
  "('p, 'r) ExecutionDAG \<Rightarrow> ('p, 'r) PlanNode \<Rightarrow> string list \<Rightarrow> string list \<Rightarrow> string list" where
  "checkDependencies dag task [] errs = errs"
| "checkDependencies dag task (depId # rest) errs =
     (if \<not> hasKey dag depId
      then checkDependencies dag task rest (errs @ [missingDependencyMessage (node_id task) depId])
      else checkDependencies dag task rest errs)"

fun checkAllDependencies ::
  "('p, 'r) ExecutionDAG \<Rightarrow> ('p, 'r) PlanNode list \<Rightarrow> string list \<Rightarrow> string list" where
  "checkAllDependencies dag [] errs = errs"
| "checkAllDependencies dag (task # rest) errs =
     checkAllDependencies dag rest (checkDependencies dag task (dependsOn task) errs)"

definition validate :: "('p, 'r) ExecutionDAG \<Rightarrow> ValidationResult" where
  "validate dag =
     (let errs = checkAllDependencies dag (getAllTasks dag) [];
          errs = (if \<not> hasCycles dag then errs else errs @ [cycleMessage])
      in \<lparr> valid = (length errs = 0), errors = errs \<rparr>)"

section \<open>Facts about validation\<close>

lemma checkDependencies_eq:
  "checkDependencies dag task deps errs =
     errs @ map (missingDependencyMessage (node_id task)) (filter (\<lambda>d. \<not> hasKey dag d) deps)"
  by (induction deps arbitrary: errs) auto

lemma checkAllDependencies_eq:
  "checkAllDependencies dag tasks errs =
     errs @ concat (map (\<lambda>task. map (missingDependencyMessage (node_id task))
                                (filter (\<lambda>d. \<not> hasKey dag d) (dependsOn task))) tasks)"
  by (induction tasks arbitrary: errs) (auto simp: checkDependencies_eq)

lemma errors_validate:
  "errors (validate dag) =
     concat (map (\<lambda>task. map (missingDependencyMessage (node_id task))
                          (filter (\<lambda>d. \<not> hasKey dag d) (dependsOn task))) (getAllTasks dag))
     @ (if hasCycles dag then [cycleMessage] else [])"
  by (simp add: validate_def Let_def checkAllDependencies_eq)

lemma valid_validate: "valid (validate dag) \<longleftrightarrow> errors (validate dag) = []"
  by (simp add: validate_def Let_def)


fun startsWith :: "string \<Rightarrow> string \<Rightarrow> bool" where
  "startsWith s [] = True"
| "startsWith [] (c # p) = False"
| "startsWith (d # s) (c # p) = (d = c \<and> startsWith s p)"

fun includesStr :: "string \<Rightarrow> string \<Rightarrow> bool" where
  "includesStr [] p = startsWith [] p"
| "includesStr (d # s) p = (startsWith (d # s) p \<or> includesStr s p)"

lemma startsWith_append: "startsWith (p @ s) p"
  by (induction p) auto

lemma includes_append: "includesStr (a @ p @ s) p"
proof (induction a)
  case Nil
  show ?case using startsWith_append [of p s] by (cases "p @ s") auto
next
  case (Cons c a)
  then show ?case by simp
qed

lemma missingDependencyMessage_names:
  "includesStr (missingDependencyMessage taskId depId) taskId \<and>
   includesStr (missingDependencyMessage taskId depId) depId"
proof -
  have "includesStr (missingDependencyMessage taskId depId) taskId"
    unfolding missingDependencyMessage_def
    using includes_append [of "''Task '' @ [CHR 0x22]" taskId] by simp
  moreover have "includesStr (missingDependencyMessage taskId depId) depId"
    unfolding missingDependencyMessage_def
    using includes_append [of "''Task '' @ [CHR 0x22] @ taskId @ [CHR 0x22] @
       '' depends on non-existent task '' @ [CHR 0x22]" depId "[CHR 0x22]"] by simp
  ultimately show ?thesis ..
qed

text \<open>
  What the search reports. A dependency path is a list of ids in which every id but the
  last is the id of a task whose \<^verbatim>\<open>dependsOn\<close> holds the next one; a dependency cycle is
  such a path of at least one step that ends where it starts and repeats no other id.
  During the search the recursion stack is a dependency path without repetition whose
  entries are exactly the grey ids, so the slice from a grey dependency to the top of the
  stack, closed with that dependency, is a dependency cycle: this is the line written to
  the console.
\<close>

fun dependencyPath :: "('p, 'r) ExecutionDAG \<Rightarrow> string list \<Rightarrow> bool" where
  "dependencyPath dag [] = True"
| "dependencyPath dag [a] = True"
| "dependencyPath dag (a # b # rest) =
     ((case getTask dag a of None \<Rightarrow> False | Some task \<Rightarrow> b \<in> set (dependsOn task)) \<and>
      dependencyPath dag (b # rest))"

definition dependencyCycle :: "('p, 'r) ExecutionDAG \<Rightarrow> string list \<Rightarrow> bool" where
  "dependencyCycle dag cycle =
     (2 \<le> length cycle \<and> hd cycle = last cycle \<and> distinct (butlast cycle) \<and>
      dependencyPath dag cycle)"

definition dependsDirectly :: "('p, 'r) ExecutionDAG \<Rightarrow> string \<Rightarrow> string \<Rightarrow> bool" where
  "dependsDirectly dag a b = (case getTask dag a of None \<Rightarrow> False | Some task \<Rightarrow> b \<in> set (dependsOn task))"

lemma dependencyPath_snoc:
  "dependencyPath dag (xs @ [y]) \<longleftrightarrow>
     dependencyPath dag xs \<and> (xs = [] \<or> dependsDirectly dag (last xs) y)"
  by (induction dag xs rule: dependencyPath.induct) (auto simp: dependsDirectly_def)

lemma dependencyPath_butlast: "dependencyPath dag xs \<Longrightarrow> dependencyPath dag (butlast xs)"
proof (cases xs rule: rev_cases)
  case Nil
  then show ?thesis by simp
next
  case (snoc ys y)
  assume "dependencyPath dag xs"
  with snoc show ?thesis by (simp add: dependencyPath_snoc)
qed

lemma dependencyPath_drop: "dependencyPath dag xs \<Longrightarrow> dependencyPath dag (drop n xs)"
proof (induction dag xs arbitrary: n rule: dependencyPath.induct)
  case (1 dag)
  then show ?case by simp
next
  case (2 dag a)
  then show ?case by (cases n) simp_all
next
  case (3 dag a b rest)
  then show ?case by (cases n) simp_all
qed

lemma indexOf_member:
  "x \<in> set xs \<Longrightarrow> \<exists>i. indexOf xs x = int i \<and> i < length xs \<and> xs ! i = x"
proof (induction xs)
  case Nil
  then show ?case by simp
next
  case (Cons y ys)
  show ?case
  proof (cases "y = x")
    case True
    then show ?thesis by (intro exI [of _ 0]) simp
  next
    case False
    with Cons obtain i where "indexOf ys x = int i" "i < length ys" "ys ! i = x" by auto
    with False show ?thesis by (intro exI [of _ "Suc i"]) (simp add: Let_def)
  qed
qed

lemma console_enter [simp]: "console (enter s t) = console s"
  by (simp add: enter_def)

lemma console_leave [simp]: "console (leave s t) = console s"
  by (simp add: leave_def)

definition stackInv :: "('p, 'r) ExecutionDAG \<Rightarrow> DfsState \<Rightarrow> bool" where
  "stackInv dag s =
     (distinct (recStack s) \<and> (\<forall>v. colorOf s v = 1 \<longleftrightarrow> v \<in> set (recStack s)) \<and>
      dependencyPath dag (recStack s))"

definition reportsCycle :: "('p, 'r) ExecutionDAG \<Rightarrow> DfsState \<Rightarrow> bool \<times> DfsState \<Rightarrow> bool" where
  "reportsCycle dag s r =
     (if fst r
      then \<exists>cycle. dependencyCycle dag cycle \<and> console (snd r) = console s @ [cycleLine cycle]
      else recStack (snd r) = recStack s \<and> stackInv dag (snd r) \<and> console (snd r) = console s)"

lemma reportCycle_cycle:
  assumes inv: "stackInv dag s" and grey: "colorOf s depId = 1"
    and edge: "dependsDirectly dag (last (recStack s)) depId"
  shows "\<exists>cycle. dependencyCycle dag cycle \<and>
           console (reportCycle s depId) = console s @ [cycleLine cycle]"
proof -
  from inv grey have m: "depId \<in> set (recStack s)" by (simp add: stackInv_def)
  from indexOf_member [OF m] obtain i where
    i: "indexOf (recStack s) depId = int i" "i < length (recStack s)" "recStack s ! i = depId"
    by blast
  let ?c = "drop i (recStack s) @ [depId]"
  have ne: "drop i (recStack s) \<noteq> []" using i(2) by simp
  have hd: "hd ?c = depId" using i(2,3) ne by (simp add: hd_drop_conv_nth)
  have lst: "last (drop i (recStack s)) = last (recStack s)" using i(2) by simp
  have p: "dependencyPath dag ?c"
    using inv edge lst ne by (simp add: dependencyPath_snoc dependencyPath_drop stackInv_def)
  have d: "distinct (butlast ?c)" using inv by (simp add: stackInv_def)
  have l: "2 \<le> length ?c" using i(2) by simp
  have "dependencyCycle dag ?c" using hd p d l by (simp add: dependencyCycle_def)
  moreover have "console (reportCycle s depId) = console s @ [cycleLine ?c]"
    using i(1) by (simp add: reportCycle_def Let_def slice_def)
  ultimately show ?thesis by blast
qed

lemma stackInv_enter:
  assumes inv: "stackInv dag s" and white: "colorOf s taskId = 0"
    and edge: "recStack s = [] \<or> dependsDirectly dag (last (recStack s)) taskId"
  shows "stackInv dag (enter s taskId)"
proof -
  from inv have "colorOf s taskId = 1 \<longleftrightarrow> taskId \<in> set (recStack s)"
    unfolding stackInv_def by blast
  with white have "taskId \<notin> set (recStack s)" by simp
  with inv edge show ?thesis
    by (auto simp: stackInv_def enter_def colorOf_def dependencyPath_snoc)
qed

lemma stackInv_leave:
  assumes inv: "stackInv dag s'" and st: "recStack s' = stack @ [taskId]"
  shows "stackInv dag (leave s' taskId) \<and> recStack (leave s' taskId) = stack"
proof -
  from inv st have d: "taskId \<notin> set stack" "distinct stack" by (auto simp: stackInv_def)
  have p: "dependencyPath dag stack"
    using dependencyPath_butlast [of dag "recStack s'"] inv st by (simp add: stackInv_def)
  have g: "\<forall>v. colorOf (leave s' taskId) v = 1 \<longleftrightarrow> v \<in> set stack"
    using inv st d by (auto simp: stackInv_def)
  show ?thesis using d p g st by (simp add: stackInv_def leave_def)
qed

lemma dfs_reports:
  "stackInv dag s \<Longrightarrow> colorOf s taskId = 0 \<Longrightarrow>
   recStack s = [] \<or> dependsDirectly dag (last (recStack s)) taskId \<Longrightarrow>
     reportsCycle dag s (dfs dag taskId s)"
  "stackInv dag s \<Longrightarrow> recStack s \<noteq> [] \<Longrightarrow>
   \<forall>d \<in> set deps. dependsDirectly dag (last (recStack s)) d \<Longrightarrow>
     reportsCycle dag s (dfsDeps dag deps s)"
proof (induction dag taskId s and dag deps s rule: dfs_dfsDeps.induct)
  case (1 dag taskId s)
  have e: "stackInv dag (enter s taskId)" using stackInv_enter [OF 1(2,3,4)] .
  have re: "recStack (enter s taskId) = recStack s @ [taskId]" by (simp add: enter_def)
  show ?case
  proof (cases "getTask dag taskId")
    case None
    then show ?thesis
      using stackInv_leave [OF e re]
      by (simp add: dfs.simps [of dag taskId s] reportsCycle_def)
  next
    case (Some task)
    have "\<forall>d \<in> set (dependsOn task). dependsDirectly dag (last (recStack (enter s taskId))) d"
      using Some by (simp add: re dependsDirectly_def)
    from 1(1) [OF Some e _ this]
    have r: "reportsCycle dag (enter s taskId) (dfsDeps dag (dependsOn task) (enter s taskId))"
      by (simp add: re)
    show ?thesis
    proof (cases "fst (dfsDeps dag (dependsOn task) (enter s taskId))")
      case True
      with r Some show ?thesis
        by (simp add: dfs.simps [of dag taskId s] reportsCycle_def Let_def)
    next
      case False
      with r have f: "recStack (snd (dfsDeps dag (dependsOn task) (enter s taskId))) = recStack s @ [taskId]"
        "stackInv dag (snd (dfsDeps dag (dependsOn task) (enter s taskId)))"
        "console (snd (dfsDeps dag (dependsOn task) (enter s taskId))) = console s"
        by (simp_all add: reportsCycle_def re)
      from stackInv_leave [OF f(2,1)] f(3) False Some show ?thesis
        by (simp add: dfs.simps [of dag taskId s] reportsCycle_def Let_def)
    qed
  qed
next
  case (2 dag s)
  then show ?case by (simp add: reportsCycle_def)
next
  case (3 dag depId rest s)
  have edge: "dependsDirectly dag (last (recStack s)) depId" using 3(6) by simp
  have restE: "\<forall>d \<in> set rest. dependsDirectly dag (last (recStack s)) d" using 3(6) by simp
  show ?case
  proof (cases "colorOf s depId = 1")
    case True
    with reportCycle_cycle [OF 3(4) True edge] show ?thesis
      by (simp add: reportsCycle_def)
  next
    case n1: False
    show ?thesis
    proof (cases "colorOf s depId = 0")
      case True
      from 3(1) [OF n1 True 3(4) True] edge
      have r: "reportsCycle dag s (dfs dag depId s)" by simp
      show ?thesis
      proof (cases "fst (dfs dag depId s)")
        case t: True
        with r n1 True show ?thesis by (simp add: reportsCycle_def Let_def)
      next
        case f: False
        with r have k: "recStack (snd (dfs dag depId s)) = recStack s"
          "stackInv dag (snd (dfs dag depId s))" "console (snd (dfs dag depId s)) = console s"
          by (simp_all add: reportsCycle_def)
        have "reportsCycle dag (snd (dfs dag depId s)) (dfsDeps dag rest (snd (dfs dag depId s)))"
          using 3(2) [OF n1 True refl f k(2)] 3(5) restE k(1) by simp
        with k n1 True f show ?thesis
          by (auto simp: reportsCycle_def Let_def split: if_splits)
      qed
    next
      case False
      with 3(3) [OF n1 False 3(4,5)] restE n1 show ?thesis by simp
    qed
  qed
qed

lemma hasCyclesLoop_reports:
  "stackInv dag s \<Longrightarrow> recStack s = [] \<Longrightarrow> reportsCycle dag s (hasCyclesLoop dag ids s)"
proof (induction ids arbitrary: s)
  case Nil
  then show ?case by (simp add: reportsCycle_def)
next
  case (Cons i ids)
  show ?case
  proof (cases "colors s i = Some 0")
    case True
    then have w: "colorOf s i = 0" by (simp add: colorOf_def)
    from dfs_reports(1) [OF Cons(2) w] Cons(3)
    have r: "reportsCycle dag s (dfs dag i s)" by simp
    show ?thesis
    proof (cases "fst (dfs dag i s)")
      case t: True
      with r True show ?thesis by (simp add: reportsCycle_def Let_def)
    next
      case f: False
      with r have k: "recStack (snd (dfs dag i s)) = recStack s"
        "stackInv dag (snd (dfs dag i s))" "console (snd (dfs dag i s)) = console s"
        by (simp_all add: reportsCycle_def)
      from Cons(1) [OF k(2)] k(1) Cons(3)
      have "reportsCycle dag (snd (dfs dag i s)) (hasCyclesLoop dag ids (snd (dfs dag i s)))"
        by simp
      with k True f show ?thesis
        by (auto simp: reportsCycle_def Let_def split: if_splits)
    qed
  next
    case False
    with Cons(1) [OF Cons(2,3)] show ?thesis by simp
  qed
qed

lemma stackInv_initial: "stackInv dag (initialDfsState dag)"
  by (simp add: stackInv_def colorOf_initial) (simp add: initialDfsState_def)

lemma hasCycles_reports:
  "hasCycles dag \<Longrightarrow>
     \<exists>cycle. dependencyCycle dag cycle \<and> console (snd (hasCyclesRun dag)) = [cycleLine cycle]"
  using hasCyclesLoop_reports [OF stackInv_initial, of dag "map fst dag"]
  by (simp add: hasCycles_def hasCyclesRun_def reportsCycle_def initialDfsState_def)

lemma cycleLine_not_error: "cycleLine cycle \<notin> set (errors (validate dag))"
  by (auto simp: errors_validate cycleLine_def cycleMessage_def missingDependencyMessage_def)

section \<open>Execution layers: Kahn's algorithm (getExecutionLayers)\<close>

text \<open>
  Exceptions of the source are values: \<^verbatim>\<open>new Error(msg)\<close> and the \<^verbatim>\<open>TypeError\<close> the
  engine raises on a property read of \<^verbatim>\<open>undefined\<close>. \<open>show_nat\<close> is the decimal
  rendering of a non-negative integer in a template string.
\<close>

datatype JsError = Error string | TypeError string


fun show_nat :: "nat \<Rightarrow> string" where
  "show_nat n =
     (if n < 10 then [''0123456789'' ! n]
      else show_nat (n div 10) @ [''0123456789'' ! (n mod 10)])"

declare show_nat.simps [simp del]

text \<open>
  \<^verbatim>\<open>inDegree\<close> is a \<^verbatim>\<open>Map<string, number>\<close> keyed by \<^verbatim>\<open>task.id\<close> and initialised
  with \<^verbatim>\<open>task.dependsOn.length\<close>; the queue starts with the keys of degree 0, in map
  order.
\<close>

fun initInDegree :: "('p, 'r) PlanNode list \<Rightarrow> (string \<times> int) list \<Rightarrow> (string \<times> int) list" where
  "initInDegree [] inDegree = inDegree"
| "initInDegree (task # rest) inDegree =
     initInDegree rest (Map_set inDegree (node_id task) (int (length (dependsOn task))))"

fun initQueue :: "(string \<times> int) list \<Rightarrow> string list \<Rightarrow> string list" where
  "initQueue [] queue = queue"
| "initQueue ((i, degree) # rest) queue =
     (if degree = 0 then initQueue rest (queue @ [i]) else initQueue rest queue)"

text \<open>
  The innermost loop, over all entries \<^verbatim>\<open>[depId, depTask]\<close> of the task map: a task
  whose \<^verbatim>\<open>dependsOn\<close> includes the processed id has its in-degree decremented once and is
  queued when the new degree is 0. \<^verbatim>\<open>inDegree.get(depId)!\<close> is defined whenever every
  task is stored under its own id; for a key without an entry the source computes
  \<^verbatim>\<open>NaN\<close>, which never equals 0 and never becomes a number again, so the model leaves
  such a key without an entry.
\<close>

fun decrementDependents ::
  "string \<Rightarrow> ('p, 'r) ExecutionDAG \<Rightarrow> (string \<times> int) list \<times> string list \<Rightarrow>
   (string \<times> int) list \<times> string list" where
  "decrementDependents i [] (inDegree, queue) = (inDegree, queue)"
| "decrementDependents i ((depId, depTask) # rest) (inDegree, queue) =
     (if i \<in> set (dependsOn depTask) then
        (case map_of inDegree depId of
           None \<Rightarrow> decrementDependents i rest (inDegree, queue)
         | Some degree \<Rightarrow>
             (let newDegree = degree - 1;
                  inDegree' = Map_set inDegree depId newDegree
              in if newDegree = 0 then decrementDependents i rest (inDegree', queue @ [depId])
                 else decrementDependents i rest (inDegree', queue)))
      else decrementDependents i rest (inDegree, queue))"

text \<open>
  The loop over \<^verbatim>\<open>layerIds\<close>; its state is \<^verbatim>\<open>currentLayer\<close>, \<^verbatim>\<open>processedCount\<close>,
  \<^verbatim>\<open>inDegree\<close> and the queue being filled for the next layer.
\<close>

fun processLayer ::
  "('p, 'r) ExecutionDAG \<Rightarrow> string list \<Rightarrow>
   ('p, 'r) PlanNode list \<times> nat \<times> (string \<times> int) list \<times> string list \<Rightarrow>
   ('p, 'r) PlanNode list \<times> nat \<times> (string \<times> int) list \<times> string list" where
  "processLayer dag [] st = st"
| "processLayer dag (i # rest) (currentLayer, processedCount, inDegree, queue) =
     (case getTask dag i of
        None \<Rightarrow> processLayer dag rest (currentLayer, processedCount, inDegree, queue)
      | Some task \<Rightarrow>
          (case decrementDependents i dag (inDegree, queue) of
             (inDegree', queue') \<Rightarrow>
               processLayer dag rest (currentLayer @ [task], processedCount + 1, inDegree', queue')))"

definition positiveDegrees :: "(string \<times> int) list \<Rightarrow> nat" where
  "positiveDegrees inDegree = length (filter (\<lambda>(k, d). 0 < d) inDegree)"

lemma positiveDegrees_Map_set:
  "map_of inDegree k = Some d \<Longrightarrow>
     positiveDegrees (Map_set inDegree k d') + (if 0 < d then 1 else 0) =
     positiveDegrees inDegree + (if 0 < d' then 1 else 0)"
  unfolding positiveDegrees_def
  by (induction inDegree) (auto split: if_splits)

lemma decrementDependents_measure:
  "decrementDependents i tasks (inDegree, queue) = (inDegree', queue') \<Longrightarrow>
     length queue' + positiveDegrees inDegree' = length queue + positiveDegrees inDegree"
proof (induction i tasks "(inDegree, queue)" arbitrary: inDegree queue
    rule: decrementDependents.induct)
  case (1 i inDegree queue)
  then show ?case by simp
next
  case (2 i depId depTask rest inDegree queue)
  show ?case
  proof (cases "i \<in> set (dependsOn depTask)")
    case False
    with 2 show ?thesis by simp
  next
    case True
    show ?thesis
    proof (cases "map_of inDegree depId")
      case None
      with 2 True show ?thesis by simp
    next
      case (Some degree)
      note ms = positiveDegrees_Map_set [OF Some, of "degree - 1"]
      show ?thesis
      proof (cases "degree - 1 = 0")
        case z: True
        from 2(2) [OF True Some refl refl z] 2(5) True Some z
        have "length queue' + positiveDegrees inDegree' =
              length (queue @ [depId]) + positiveDegrees (Map_set inDegree depId (degree - 1))"
          by (simp add: Let_def)
        with ms z show ?thesis by simp
      next
        case nz: False
        from 2(3) [OF True Some refl refl nz] 2(5) True Some nz
        have "length queue' + positiveDegrees inDegree' =
              length queue + positiveDegrees (Map_set inDegree depId (degree - 1))"
          by (simp add: Let_def)
        with ms nz show ?thesis by (simp split: if_splits)
      qed
    qed
  qed
qed

lemma processLayer_measure:
  "processLayer dag ids (currentLayer, processedCount, inDegree, queue) =
     (currentLayer', processedCount', inDegree', queue') \<Longrightarrow>
     length queue' + positiveDegrees inDegree' = length queue + positiveDegrees inDegree"
proof (induction ids arbitrary: currentLayer processedCount inDegree queue)
  case Nil
  then show ?case by simp
next
  case (Cons i ids)
  show ?case
  proof (cases "getTask dag i")
    case None
    with Cons show ?thesis by simp
  next
    case (Some task)
    obtain d q where dq: "decrementDependents i dag (inDegree, queue) = (d, q)"
      by (cases "decrementDependents i dag (inDegree, queue)")
    from Cons.prems Some dq
    have "processLayer dag ids (currentLayer @ [task], processedCount + 1, d, q) =
            (currentLayer', processedCount', inDegree', queue')" by simp
    from Cons.IH [OF this] decrementDependents_measure [OF dq] show ?thesis by simp
  qed
qed

text \<open>
  The \<^verbatim>\<open>while (queue.length > 0)\<close> loop. Every pass empties the queue, and an id is
  queued only when a positive in-degree reaches 0, so the queue length plus the number of
  positive in-degrees decreases.
\<close>

function layersLoop ::
  "('p, 'r) ExecutionDAG \<Rightarrow> string list \<Rightarrow> (string \<times> int) list \<Rightarrow>
   ('p, 'r) PlanNode list list \<Rightarrow> nat \<Rightarrow> ('p, 'r) PlanNode list list \<times> nat" where
  "layersLoop dag queue inDegree layers processedCount =
     (if length queue > 0 then
        (case processLayer dag queue ([], processedCount, inDegree, []) of
           (currentLayer, processedCount', inDegree', queue') \<Rightarrow>
             layersLoop dag queue' inDegree'
               (if length currentLayer > 0 then layers @ [currentLayer] else layers)
               processedCount')
      else (layers, processedCount))"
  by pat_completeness auto
termination
proof (relation "measure (\<lambda>(dag, queue, inDegree, layers, processedCount).
    length queue + positiveDegrees inDegree)", goal_cases)
  case 1
  show ?case by simp
next
  case (2 dag queue inDegree layers processedCount currentLayer r1 processedCount' r2
      inDegree' queue')
  then have "processLayer dag queue ([], processedCount, inDegree, []) =
      (currentLayer, processedCount', inDegree', queue')" by simp
  from processLayer_measure [OF this] 2(1) show ?case by simp
qed

declare layersLoop.simps [simp del]

definition getExecutionLayers ::
  "('p, 'r) ExecutionDAG \<Rightarrow> JsError + ('p, 'r) PlanNode list list" where
  "getExecutionLayers dag =
     (let inDegree = initInDegree (getAllTasks dag) [];
          queue = initQueue inDegree []
      in case layersLoop dag queue inDegree [] 0 of
           (layers, processedCount) \<Rightarrow>
             if processedCount \<noteq> length dag
             then Inl (Error (''Cycle detected: processed '' @ show_nat processedCount @
                              '' of '' @ show_nat (length dag) @ '' tasks''))
             else Inr layers)"

section \<open>Scheduler: executionPhase and executeTask (BobAgentPlanAct)\<close>

text \<open>
  The collaborators of the agent are parameters of the model, gathered in one record.
  Each field tells what one awaited call of \<^verbatim>\<open>executeTask\<close> does for a given task: it
  returns normally (\<open>None\<close>) or throws an error with a message (\<open>Some\<close>).

  \<^item> \<open>taskSpan\<close>: \<^verbatim>\<open>observability.addSpan(`Task: ${task.id}`)\<close>, awaited before the
    \<^verbatim>\<open>try\<close> block.
  \<^item> \<open>storeStarted\<close>: \<^verbatim>\<open>memory.store('procedural', `Executing: ${task.id}`, ...)\<close>, the
    first call inside \<^verbatim>\<open>try\<close>.
  \<^item> \<open>runner\<close>: the \<^verbatim>\<open>switch\<close> on \<^verbatim>\<open>executionMethod\<close> together with the tool, query and
    sub-agent calls behind it: given the task and the results of its dependencies it
    returns a result (\<open>Inr\<close>) or throws (\<open>Inl\<close>). Every execution method returns an
    object, so the result of a completed task is never \<^verbatim>\<open>undefined\<close>.
  \<^item> \<open>afterCompleted\<close>: the calls that follow \<^verbatim>\<open>dag.completeTask\<close> inside \<^verbatim>\<open>try\<close>
    (\<^verbatim>\<open>ability.recordToolCall\<close>, \<^verbatim>\<open>memory.store\<close> of the result with its
    \<^verbatim>\<open>JSON.stringify\<close>, \<^verbatim>\<open>observability.endSpan\<close>): the message of the first of them
    that throws.
  \<^item> \<open>afterFailed\<close>: the calls that follow \<^verbatim>\<open>dag.failTask\<close> inside \<^verbatim>\<open>catch\<close>
    (\<^verbatim>\<open>ability.recordToolCall\<close>, \<^verbatim>\<open>observability.endSpan\<close>): the message of the first
    of them that throws.

  Thrown values are \<^verbatim>\<open>Error\<close> objects, identified with their message. The spans of the
  planning and execution phases themselves are taken to return normally, and
  \<^verbatim>\<open>new Date()\<close> in a progress entry is left out.
\<close>

type_synonym ('p, 'r) TaskRunner = "('p, 'r) PlanNode \<Rightarrow> (string \<rightharpoonup> 'r) \<Rightarrow> string + 'r"

record ('p, 'r) Collaborators =
  taskSpan :: "('p, 'r) PlanNode \<Rightarrow> string option"
  storeStarted :: "('p, 'r) PlanNode \<Rightarrow> string option"
  runner :: "('p, 'r) TaskRunner"
  afterCompleted :: "('p, 'r) PlanNode \<Rightarrow> 'r \<Rightarrow> string option"
  afterFailed :: "('p, 'r) PlanNode \<Rightarrow> string \<Rightarrow> string option"

record AgentProgress =
  step :: nat
  progress_action :: string
  observation :: string

definition logProgress :: "AgentProgress list \<Rightarrow> nat \<Rightarrow> string \<Rightarrow> string \<Rightarrow> AgentProgress list" where
  "logProgress progressLog n act obs =
     progressLog @ [\<lparr>step = n, progress_action = act, observation = obs\<rparr>]"

text \<open>
  \<^verbatim>\<open>executeTask\<close> receives the task object found by \<^verbatim>\<open>getReadyTasks\<close>; by the time the
  collaborators see it, \<^verbatim>\<open>markExecuting\<close> has updated that same object, so they are given
  the task as it is stored in the graph at the time of the call.

  The result of \<^verbatim>\<open>executeTask\<close> is the settlement of its promise, \<open>None\<close> when it resolves
  and \<open>Some\<close> message when it rejects, with the graph after its writes.

  \<^item> A throw of \<^verbatim>\<open>addSpan\<close> is outside \<^verbatim>\<open>try\<close>: the promise rejects and the task keeps the
    status \<^verbatim>\<open>executing\<close>.
  \<^item> A throw inside \<^verbatim>\<open>try\<close> goes to \<^verbatim>\<open>catch\<close>, which calls \<^verbatim>\<open>failTask\<close>; when the throw
    comes after \<^verbatim>\<open>completeTask\<close>, the completed task becomes failed and keeps its result.
  \<^item> A throw inside \<^verbatim>\<open>catch\<close>, after \<^verbatim>\<open>failTask\<close>, rejects the promise.
\<close>

definition liveTask :: "('p, 'r) ExecutionDAG \<Rightarrow> ('p, 'r) PlanNode \<Rightarrow> ('p, 'r) PlanNode" where
  "liveTask dag task = (case getTask dag (node_id task) of None \<Rightarrow> task | Some t \<Rightarrow> t)"

definition executeTaskCatch ::
  "('p, 'r) Collaborators \<Rightarrow> ('p, 'r) PlanNode \<Rightarrow> string \<Rightarrow> ('p, 'r) ExecutionDAG \<Rightarrow>
   string option \<times> ('p, 'r) ExecutionDAG" where
  "executeTaskCatch env task err dag =
     (let dag' = failTask dag (node_id task) err
      in (afterFailed env (liveTask dag' task) err, dag'))"

definition executeTask ::
  "('p, 'r) Collaborators \<Rightarrow> ('p, 'r) PlanNode \<Rightarrow> ('p, 'r) ExecutionDAG \<Rightarrow>
   string option \<times> ('p, 'r) ExecutionDAG" where
  "executeTask env task dag =
     (case taskSpan env (liveTask dag task) of
        Some err \<Rightarrow> (Some err, dag)
      | None \<Rightarrow>
          (case storeStarted env (liveTask dag task) of
             Some err \<Rightarrow> executeTaskCatch env task err dag
           | None \<Rightarrow>
               (let dependencyResults = getDependencyResults dag task in
                case runner env (liveTask dag task) dependencyResults of
                  Inl err \<Rightarrow> executeTaskCatch env task err dag
                | Inr res \<Rightarrow>
                    (let dag' = completeTask dag (node_id task) res in
                     case afterCompleted env (liveTask dag' task) res of
                       Some err \<Rightarrow> executeTaskCatch env task err dag'
                     | None \<Rightarrow> (None, dag')))))"

text \<open>
  One pass of the \<^verbatim>\<open>while\<close> loop of \<^verbatim>\<open>executionPhase\<close> marks every ready task as
  executing and then awaits \<^verbatim>\<open>Promise.all\<close> of their \<^verbatim>\<open>executeTask\<close> calls.

  When every call resolves, the loop resumes after all of them. Each call writes only its
  own task and reads only results of completed dependencies, which are not in the batch,
  so the graph after the barrier is the one obtained by running the calls one after the
  other.

  When a call rejects, \<^verbatim>\<open>Promise.all\<close> rejects at once, the \<^verbatim>\<open>catch\<close> around it logs the
  error and the loop goes on. With a single call in the batch nothing else is pending and
  the graph is the one that call left. With several calls the others may still be
  pending: what the loop reads from the graph from then on depends on when they settle,
  which the inputs of this model do not determine. The result is \<open>None\<close> in that case and
  the run is followed no further.
\<close>

definition settleAll ::
  "('p, 'r) Collaborators \<Rightarrow> ('p, 'r) PlanNode list \<Rightarrow> ('p, 'r) ExecutionDAG \<Rightarrow>
   string list \<times> ('p, 'r) ExecutionDAG" where
  "settleAll env readyTasks dag =
     foldl (\<lambda>(rejections, d) task.
              case executeTask env task d of
                (None, d') \<Rightarrow> (rejections, d')
              | (Some err, d') \<Rightarrow> (rejections @ [err], d'))
           ([], dag) readyTasks"

definition executeBatch ::
  "('p, 'r) Collaborators \<Rightarrow> ('p, 'r) PlanNode list \<Rightarrow> ('p, 'r) ExecutionDAG \<Rightarrow>
   ('p, 'r) ExecutionDAG option" where
  "executeBatch env readyTasks dag =
     (let dag1 = foldl (\<lambda>d task. markExecuting d (node_id task)) dag readyTasks
      in case settleAll env readyTasks dag1 of
           (rejections, dag2) \<Rightarrow>
             if rejections = [] \<or> length readyTasks = 1 then Some dag2 else None)"

definition maxIterations :: nat where
  "maxIterations = 50"

definition executionProgress :: "('p, 'r) ExecutionDAG \<Rightarrow> string" where
  "executionProgress dag =
     (let stats = getStats dag in
      ''Completed '' @ show_nat (completed stats) @ ''/'' @ show_nat (total stats) @
      '' tasks, '' @ show_nat (failed stats) @ '' failed'')"

text \<open>
  The loop returns the graph, the progress log and whether it left through the
  \<^verbatim>\<open>Blocked by failed tasks\<close> exit (no ready task while \<^verbatim>\<open>hasFailed()\<close>, marked by a
  console line only). It returns \<open>None\<close> when a batch did.
\<close>

function executionLoop ::
  "('p, 'r) Collaborators \<Rightarrow> nat \<Rightarrow> ('p, 'r) ExecutionDAG \<Rightarrow> nat \<Rightarrow> AgentProgress list \<Rightarrow>
   (('p, 'r) ExecutionDAG \<times> AgentProgress list \<times> bool) option" where
  "executionLoop env cycle dag iterationCount progressLog =
     (if \<not> isComplete dag \<and> iterationCount < maxIterations then
        (let readyTasks = getReadyTasks dag in
         if length readyTasks = 0 then
           (if hasFailed dag then Some (dag, progressLog, True) else Some (dag, progressLog, False))
         else
           (case executeBatch env readyTasks dag of
              None \<Rightarrow> None
            | Some dag' \<Rightarrow>
                executionLoop env cycle dag' (iterationCount + 1)
                  (logProgress progressLog cycle ''EXECUTION'' (executionProgress dag'))))
      else Some (dag, progressLog, False))"
  by pat_completeness auto
termination
  by (relation "measure (\<lambda>(env, cycle, dag, iterationCount, progressLog).
        maxIterations - iterationCount)") auto

declare executionLoop.simps [simp del]

record ExecutionResult =
  complete :: bool
  finalResult :: "string option"

text \<open>
  After the loop: a complete graph yields the rendered result of the last task of the
  map. \<^verbatim>\<open>allTasks[allTasks.length - 1]\<close> of an empty graph is \<^verbatim>\<open>undefined\<close> and the read
  of its \<^verbatim>\<open>result\<close> throws a \<^verbatim>\<open>TypeError\<close>. \<open>render\<close> is the string itself for a string
  result and \<^verbatim>\<open>JSON.stringify\<close> otherwise; for an \<^verbatim>\<open>undefined\<close> result both give
  \<^verbatim>\<open>undefined\<close>.
\<close>

definition undefinedResultError :: JsError where
  "undefinedResultError = TypeError ''Cannot read properties of undefined (reading 'result')''"

text \<open>
  What leaves a phase other than its result: an error thrown by the source, or the cut of
  the run at a rejected batch with calls pending.
\<close>

datatype Abrupt = Throw JsError | Unsettled

definition executionPhase ::
  "('p, 'r) Collaborators \<Rightarrow> ('r \<Rightarrow> string) \<Rightarrow> ('p, 'r) ExecutionDAG \<Rightarrow> nat \<Rightarrow> AgentProgress list \<Rightarrow>
   (Abrupt + ExecutionResult) \<times> ('p, 'r) ExecutionDAG \<times> AgentProgress list \<times> bool" where
  "executionPhase env render dag cycle progressLog =
     (case executionLoop env cycle dag 0 progressLog of
        None \<Rightarrow> (Inl Unsettled, dag, progressLog, False)
      | Some (dag', progressLog', blocked) \<Rightarrow>
          if isComplete dag' then
            (let allTasks = getAllTasks dag' in
             if allTasks = [] then (Inl (Throw undefinedResultError), dag', progressLog', blocked)
             else (Inr \<lparr>complete = True,
                         finalResult = map_option render (result (last allTasks))\<rparr>,
                   dag', progressLog', blocked))
          else (Inr \<lparr>complete = False, finalResult = None\<rparr>, dag', progressLog', blocked))"

section \<open>Runs in which every bookkeeping call returns\<close>


definition resolvedTask ::
  "('p, 'r) TaskRunner \<Rightarrow> ('p, 'r) PlanNode \<Rightarrow> ('p, 'r) ExecutionDAG \<Rightarrow> ('p, 'r) ExecutionDAG" where
  "resolvedTask run task dag =
     (let dependencyResults = getDependencyResults dag task in
      case run (liveTask dag task) dependencyResults of
        Inr res \<Rightarrow> completeTask dag (node_id task) res
      | Inl err \<Rightarrow> failTask dag (node_id task) err)"

definition resolvedBatch ::
  "('p, 'r) TaskRunner \<Rightarrow> ('p, 'r) PlanNode list \<Rightarrow> ('p, 'r) ExecutionDAG \<Rightarrow> ('p, 'r) ExecutionDAG" where
  "resolvedBatch run readyTasks dag =
     (let dag1 = foldl (\<lambda>d task. markExecuting d (node_id task)) dag readyTasks
      in foldl (\<lambda>d task. resolvedTask run task d) dag1 readyTasks)"









section \<open>Controller: the plan, execute, replan loop (BobAgentPlanAct.execute)\<close>

text \<open>
  The constructor: \<^verbatim>\<open>options.maxExecutionCycles || 10\<close>, so an absent or zero option
  gives 10. The option is an integer here.
\<close>

definition newMaxExecutionCycles :: "int option \<Rightarrow> int" where
  "newMaxExecutionCycles opt = (case opt of None \<Rightarrow> 10 | Some n \<Rightarrow> if n = 0 then 10 else n)"

text \<open>
  The context string built from the previous graph: the template literal after
  \<^verbatim>\<open>trim()\<close>, with one block per failed task. An \<^verbatim>\<open>undefined\<close> error is interpolated
  as the text \<^verbatim>\<open>undefined\<close>.
\<close>

definition nl :: string where
  "nl = [CHR 0x0A]"

definition failedTaskLine :: "('p, 'r) PlanNode \<Rightarrow> string" where
  "failedTaskLine t =
     ''  - '' @ node_id t @ '': '' @ action t @ nl @ ''    Error: '' @
     (case error t of None \<Rightarrow> ''undefined'' | Some e \<Rightarrow> e)"

definition previousContext :: "('p, 'r) ExecutionDAG option \<Rightarrow> string" where
  "previousContext previousDag =
     (case previousDag of
        None \<Rightarrow> []
      | Some dag \<Rightarrow>
          (let stats = getStats dag;
               failedTasks = getFailedTasks dag
           in ''PREVIOUS EXECUTION ATTEMPT:'' @ nl @
              ''- Completed: '' @ show_nat (completed stats) @ '' tasks'' @ nl @
              ''- Failed: '' @ show_nat (failed stats) @ '' tasks'' @ nl @
              (if length failedTasks > 0
               then nl @ ''Failed tasks:'' @ nl @ join (map failedTaskLine failedTasks) nl
               else []) @
              nl @ nl @
              ''Please create a new plan that addresses these failures and completes the goal.''))"

text \<open>
  The planner stands for the LLM request, the JSON parse and the Zod schema: given the
  context it returns the parsed task list or fails with a message. Its first argument is
  the number of requests made before, so that a planner may answer differently from call
  to call. \<^verbatim>\<open>planningPhase\<close> resets every status to pending, builds the graph, and throws
  when \<^verbatim>\<open>validate()\<close> reports errors or \<^verbatim>\<open>getExecutionLayers()\<close> throws. Its span, memory
  and recording calls are taken to return normally, and the memories it retrieves are not
  part of the context recorded here.
\<close>

type_synonym ('p, 'r) Planner = "nat \<Rightarrow> string \<Rightarrow> string + ('p, 'r) PlanNode list"

definition planningPhase ::
  "('p, 'r) Planner \<Rightarrow> nat \<Rightarrow> ('p, 'r) ExecutionDAG option \<Rightarrow> JsError + ('p, 'r) ExecutionDAG" where
  "planningPhase planner calls previousDag =
     (case planner calls (previousContext previousDag) of
        Inl err \<Rightarrow> Inl (Error (''Failed to parse plan JSON: '' @ err))
      | Inr planTasks \<Rightarrow>
          (let tasks = map (\<lambda>task. task\<lparr>status := Pending\<rparr>) planTasks;
               dag = newExecutionDAG tasks;
               validation = validate dag
           in if \<not> valid validation
              then Inl (Error (''Invalid DAG: '' @ join (errors validation) '', ''))
              else (case getExecutionLayers dag of
                      Inl e \<Rightarrow> Inl e
                    | Inr layers \<Rightarrow> Inr dag)))"

definition shouldReplan :: "('p, 'r) ExecutionDAG \<Rightarrow> ExecutionResult \<Rightarrow> bool" where
  "shouldReplan dag executionResult =
     (if hasFailed dag then True
      else if \<not> complete executionResult \<and> length (getReadyTasks dag) = 0 then True
      else False)"

text \<open>
  The state of the \<^verbatim>\<open>while\<close> loop of \<^verbatim>\<open>execute\<close>: its local variables, the progress log
  of the agent, and the contexts handed to the planner so far (one per planner request).
\<close>

record ('p, 'r) ControllerState =
  executionCycle :: nat
  currentDag :: "('p, 'r) ExecutionDAG option"
  finalResultText :: string
  progressLog :: "AgentProgress list"
  plannerContexts :: "string list"

text \<open>
  The agent: the planner, the collaborators of \<^verbatim>\<open>executeTask\<close>, the rendering of a result,
  the budget, and what the awaited bookkeeping calls of \<^verbatim>\<open>execute\<close> itself do, each
  returning normally (\<open>None\<close>) or throwing an error with a message (\<open>Some\<close>):

  \<^item> \<open>run_started\<close>: \<^verbatim>\<open>observability.startTrace\<close>, \<^verbatim>\<open>ability.startEpisode\<close> and the
    \<^verbatim>\<open>memory.store\<close> of the goal, before the \<^verbatim>\<open>try\<close> block;
  \<^item> \<open>run_succeeded\<close>: \<^verbatim>\<open>ability.endEpisode(true)\<close> and the \<^verbatim>\<open>memory.store\<close> of the final
    result, after the loop inside \<^verbatim>\<open>try\<close>;
  \<^item> \<open>run_failed\<close>: \<^verbatim>\<open>ability.endEpisode(false)\<close> and the \<^verbatim>\<open>memory.store\<close> of the error,
    inside \<^verbatim>\<open>catch\<close>;
  \<^item> \<open>run_finished\<close>: \<^verbatim>\<open>observability.endTrace\<close>, \<^verbatim>\<open>memory.consolidate\<close>,
    \<^verbatim>\<open>memory.decay\<close> and \<^verbatim>\<open>printStatistics\<close>, inside \<^verbatim>\<open>finally\<close>.
\<close>

record ('p, 'r) Agent =
  agent_planner :: "('p, 'r) Planner"
  agent_env :: "('p, 'r) Collaborators"
  agent_render :: "'r \<Rightarrow> string"
  maxExecutionCycles :: int
  run_started :: "string option"
  run_succeeded :: "string \<Rightarrow> string option"
  run_failed :: "string \<Rightarrow> string option"
  run_finished :: "string option"


definition needsPlanning :: "('p, 'r) ExecutionDAG option \<Rightarrow> bool" where
  "needsPlanning d = (case d of None \<Rightarrow> True | Some dag \<Rightarrow> isComplete dag \<or> hasFailed dag)"

text \<open>
  Phase 1 of a cycle: when there is no graph, or the graph is complete or has a failed
  task, the planner is called with the context of the old graph and the graph it returns
  replaces the old one. An error thrown by \<^verbatim>\<open>planningPhase\<close> leaves the loop.
\<close>

definition planIfNeeded ::
  "('p, 'r) Agent \<Rightarrow> ('p, 'r) ControllerState \<Rightarrow> JsError option \<times> ('p, 'r) ControllerState" where
  "planIfNeeded agent st =
     (if needsPlanning (currentDag st) then
        (let st1 = st\<lparr>plannerContexts := plannerContexts st @ [previousContext (currentDag st)]\<rparr>
         in case planningPhase (agent_planner agent) (length (plannerContexts st)) (currentDag st) of
              Inl e \<Rightarrow> (Some e, st1)
            | Inr dag \<Rightarrow>
                (None, st1\<lparr>currentDag := Some dag,
                           progressLog := logProgress (progressLog st1) (executionCycle st1) ''PLANNING''
                             (''Created plan with '' @ show_nat (length (getAllTasks dag)) @ '' tasks'')\<rparr>))
      else (None, st))"

lemma executionCycle_planIfNeeded: "executionCycle (snd (planIfNeeded agent st)) = executionCycle st"
  by (simp add: planIfNeeded_def Let_def split: sum.splits)

lemma executionCycle_planIfNeeded_eq:
  "(e, st1) = planIfNeeded agent st \<Longrightarrow> executionCycle st1 = executionCycle st"
  using executionCycle_planIfNeeded [of agent st] by (metis snd_conv)

definition nullDagError :: JsError where
  "nullDagError = TypeError ''Cannot read properties of null (reading 'isComplete')''"

text \<open>
  The loop returns the error thrown inside it, if any, with the state at that point.
  \<^verbatim>\<open>break\<close> and the exhausted loop condition both end it without an error. After phase 1
  the graph is never \<^verbatim>\<open>null\<close>; that branch is what a call on \<^verbatim>\<open>null\<close> would do. A
  phase cut at a rejected batch cuts the loop as well, with the state before that phase.
\<close>

function executeLoop ::
  "('p, 'r) Agent \<Rightarrow> ('p, 'r) ControllerState \<Rightarrow> Abrupt option \<times> ('p, 'r) ControllerState" where
  "executeLoop agent st =
     (if int (executionCycle st) < maxExecutionCycles agent then
        (case planIfNeeded agent (st\<lparr>executionCycle := executionCycle st + 1\<rparr>) of
           (Some e, st1) \<Rightarrow> (Some (Throw e), st1)
         | (None, st1) \<Rightarrow>
             (case currentDag st1 of
                None \<Rightarrow> (Some (Throw nullDagError), st1)
              | Some dag \<Rightarrow>
                  (case executionPhase (agent_env agent) (agent_render agent) dag
                          (executionCycle st1) (progressLog st1) of
                     (outcome, dag', progressLog', blocked) \<Rightarrow>
                       (case outcome of
                          Inl e \<Rightarrow> (Some e, st1\<lparr>currentDag := Some dag', progressLog := progressLog'\<rparr>)
                        | Inr executionResult \<Rightarrow>
                            if complete executionResult then
                              (None, st1\<lparr>currentDag := Some dag', progressLog := progressLog',
                                 finalResultText :=
                                 (case finalResult executionResult of
                                    None \<Rightarrow> ''Goal completed successfully''
                                  | Some text \<Rightarrow>
                                      if text = [] then ''Goal completed successfully'' else text)\<rparr>)
                            else if shouldReplan dag' executionResult then
                              executeLoop agent
                                (st1\<lparr>currentDag := Some dag',
                                   progressLog := logProgress progressLog' (executionCycle st1)
                                     ''REPLANNING'' ''Replanning triggered due to failures''\<rparr>)
                            else if \<not> isComplete dag' then
                              (None, st1\<lparr>currentDag := Some dag', progressLog := progressLog'\<rparr>)
                            else executeLoop agent
                                   (st1\<lparr>currentDag := Some dag', progressLog := progressLog'\<rparr>)))))
      else (None, st))"
  by pat_completeness auto
termination
  by (relation "measure (\<lambda>(agent, st). nat (maxExecutionCycles agent - int (executionCycle st)))")
     (auto dest!: executionCycle_planIfNeeded_eq)

declare executeLoop.simps [simp del]






section \<open>Facts about the scheduler\<close>




lemma executionPhase_deadlock:
  assumes "\<not> isComplete dag" "\<not> hasFailed dag" "getReadyTasks dag = []"
  shows "executionPhase run rend dag cycle plog =
           (Inr \<lparr>complete = False, finalResult = None\<rparr>, dag, plog, False)"
proof -
  have "executionLoop run cycle dag 0 plog = Some (dag, plog, False)"
    by (subst executionLoop.simps) (simp add: assms)
  then show ?thesis by (simp add: executionPhase_def assms)
qed

section \<open>What a batch does to the graph\<close>

text \<open>
  The skeleton of a graph is what no transition changes: the keys in map order and, for
  every task, its id, action and dependencies. \<open>settled run t t'\<close> says that \<open>t'\<close> is
  the task \<open>t\<close> after its call of \<^verbatim>\<open>executeTask\<close> resolved: completed with the result
  the runner returned, or failed with the message it threw.
\<close>

definition skeleton :: "('p, 'r) ExecutionDAG \<Rightarrow> (string \<times> string \<times> string \<times> string list) list" where
  "skeleton dag = map (\<lambda>(k, t). (k, node_id t, action t, dependsOn t)) dag"


lemma skeleton_Map_set:
  "map_of dag i = Some t \<Longrightarrow> node_id t' = node_id t \<Longrightarrow> action t' = action t \<Longrightarrow>
   dependsOn t' = dependsOn t \<Longrightarrow> skeleton (Map_set dag i t') = skeleton dag"
  unfolding skeleton_def by (induction dag) (auto split: if_splits)

lemma action_assign [simp]: "action (assign t u) = action t"
  by (simp add: assign_def)

lemma skeleton_updateTask [simp]: "skeleton (updateTask dag i u) = skeleton dag"
  unfolding updateTask_def getTask_def
  by (auto split: option.splits intro!: skeleton_Map_set)





lemma assign_mark [simp]:
  "assign t \<lparr>new_status = Some Executing, new_result = None, new_error = None\<rparr> = t\<lparr>status := Executing\<rparr>"
  by (simp add: assign_def)



lemma skeleton_markAll [simp]:
  "skeleton (foldl (\<lambda>d t. markExecuting d (node_id t)) g ts) = skeleton g"
  by (induction ts arbitrary: g) (simp_all add: markExecuting_def)

lemma resolvedTask_updateTask:
  "resolvedTask run t d =
     updateTask d (node_id t)
       (case run (liveTask d t) (getDependencyResults d t) of
          Inr r \<Rightarrow> \<lparr>new_status = Some Completed, new_result = Some r, new_error = None\<rparr>
        | Inl e \<Rightarrow> \<lparr>new_status = Some Failed, new_result = None, new_error = Some e\<rparr>)"
  by (simp add: resolvedTask_def completeTask_def failTask_def Let_def split: sum.splits)

lemma skeleton_resolvedTask [simp]: "skeleton (resolvedTask run t d) = skeleton d"
  by (simp add: resolvedTask_updateTask)

lemma skeleton_execAll [simp]:
  "skeleton (foldl (\<lambda>d t. resolvedTask run t d) g ts) = skeleton g"
  by (induction ts arbitrary: g) simp_all

lemma skeleton_resolvedBatch [simp]: "skeleton (resolvedBatch run ts g) = skeleton g"
  by (simp add: resolvedBatch_def Let_def)










section \<open>Well-formed graphs and scheduler invariants\<close>
































section \<open>Outcomes of a scheduler run\<close>






section \<open>Planned graphs\<close>











section \<open>One cycle of the controller\<close>







section \<open>A planner whose plans always contain a failing task\<close>


section \<open>The context handed to the planner after a failure\<close>



section \<open>Plans deeper than the iteration limit\<close>














section \<open>Example graphs\<close>

definition mkTask :: "string \<Rightarrow> string list \<Rightarrow> TaskStatus \<Rightarrow> (unit, string) PlanNode" where
  "mkTask i deps st =
     \<lparr> node_id = i, action = ''do '' @ i, dependsOn = deps, payload = (),
       status = st, result = None, error = None \<rparr>"

definition readyExample :: "(unit, string) ExecutionDAG" where
  "readyExample =
     newExecutionDAG
       [mkTask ''a'' [] Completed, mkTask ''b'' [] Failed,
        mkTask ''c'' [''a''] Pending, mkTask ''d'' [''a'', ''b''] Pending]"

definition oneTask :: "(unit, string) ExecutionDAG" where
  "oneTask = newExecutionDAG [mkTask ''t'' [] Pending]"

definition oneTaskFailed :: "(unit, string) ExecutionDAG" where
  "oneTaskFailed = failTask oneTask ''t'' ''boom''"

definition oneTaskRevived :: "(unit, string) ExecutionDAG" where
  "oneTaskRevived = completeTask oneTaskFailed ''t'' ''ok''"

definition cycleAB :: "(unit, string) ExecutionDAG" where
  "cycleAB = newExecutionDAG [mkTask ''taskA'' [''taskB''] Pending, mkTask ''taskB'' [''taskA''] Pending]"

definition danglingAndCycle :: "(unit, string) ExecutionDAG" where
  "danglingAndCycle =
     newExecutionDAG [mkTask ''x'' [''ghost'', ''y''] Pending, mkTask ''y'' [''x''] Pending]"

definition stuckGraph :: "(unit, string) ExecutionDAG" where
  "stuckGraph = newExecutionDAG [mkTask ''T'' [] Executing]"

definition stuckState :: "(unit, string) ControllerState" where
  "stuckState =
     \<lparr>executionCycle = 1, currentDag = Some stuckGraph, finalResultText = [],
      progressLog = [], plannerContexts = [[]]\<rparr>"

definition quietEnv :: "('p, 'r) TaskRunner \<Rightarrow> ('p, 'r) Collaborators" where
  "quietEnv run =
     \<lparr>taskSpan = (\<lambda>t. None), storeStarted = (\<lambda>t. None), runner = run,
      afterCompleted = (\<lambda>t r. None), afterFailed = (\<lambda>t e. None)\<rparr>"

definition failOnA :: "(unit, string) TaskRunner" where
  "failOnA t deps = (if node_id t = ''A'' then Inl ''boom'' else Inr (''done '' @ node_id t))"

definition runnerAB :: "(unit, string) Collaborators" where
  "runnerAB = quietEnv failOnA"


definition spanFailsT :: "(unit, string) Collaborators" where
  "spanFailsT =
     runnerAB\<lparr>taskSpan := (\<lambda>t. if node_id t = ''T'' then Some ''span down'' else None)\<rparr>"


definition planAB :: "(unit, string) Agent" where
  "planAB =
     \<lparr>agent_planner = (\<lambda>n ctx. Inr [mkTask ''A'' [] Pending, mkTask ''B'' [] Pending]),
      agent_env = runnerAB, agent_render = (\<lambda>r. r),
      maxExecutionCycles = newMaxExecutionCycles (Some 3),
      run_started = None, run_succeeded = (\<lambda>text. None), run_failed = (\<lambda>err. None),
      run_finished = None\<rparr>"

definition layersABC :: "(unit, string) ExecutionDAG" where
  "layersABC =
     newExecutionDAG
       [mkTask ''A'' [] Pending, mkTask ''B'' [] Pending, mkTask ''C'' [''A'', ''B''] Pending]"

definition duplicateDeps :: "(unit, string) ExecutionDAG" where
  "duplicateDeps = newExecutionDAG [mkTask ''t1'' [] Pending, mkTask ''t2'' [''t1'', ''t1''] Pending]"










text \<open>
  The stuck graph, in which the only task is executing, is what one execution phase leaves
  of the one-task plan T when \<^verbatim>\<open>addSpan\<close> throws for T: the call of \<^verbatim>\<open>executeTask\<close> rejects
  before its \<^verbatim>\<open>try\<close> block, the loop logs the error and goes on, and no task is ready.
\<close>

lemma rejected_span_leaves_stuckGraph:
  "executionPhase spanFailsT (\<lambda>r. r) (newExecutionDAG [mkTask ''T'' [] Pending]) 1 [] =
     (Inr \<lparr>complete = False, finalResult = None\<rparr>, stuckGraph,
      [\<lparr>step = 1, progress_action = ''EXECUTION'', observation = ''Completed 0/1 tasks, 0 failed''\<rparr>],
      False)"
  by code_simp

section \<open>Claims about the task graph\<close>

text \<open>
  C1. For every graph, \<^verbatim>\<open>getReadyTasks()\<close> returns exactly the tasks (in map order) whose
  status is pending and all of whose \<^verbatim>\<open>dependsOn\<close> ids refer to tasks of the graph with
  status completed. In particular a pending task with a failed dependency is not in the
  list; the function only reads the graph, so this holds at every recomputation for as
  long as the dependency is failed.
\<close>

theorem getReadyTasks_exact:
  "getReadyTasks dag =
     filter (\<lambda>task. status task = Pending \<and>
                (\<forall>depId \<in> set (dependsOn task).
                   \<exists>dep. getTask dag depId = Some dep \<and> status dep = Completed))
            (getAllTasks dag)
   \<and> (\<forall>task depId dep.
         status task = Pending \<and> depId \<in> set (dependsOn task) \<and>
         getTask dag depId = Some dep \<and> status dep = Failed
         \<longrightarrow> task \<notin> set (getReadyTasks dag))"
proof -
  have eq: "getReadyTasks dag =
     filter (\<lambda>task. status task = Pending \<and>
                (\<forall>depId \<in> set (dependsOn task).
                   \<exists>dep. getTask dag depId = Some dep \<and> status dep = Completed))
            (getAllTasks dag)"
    by (simp add: getReadyTasks_filter allDepsCompleted_iff)
  have "task \<notin> set (getReadyTasks dag)"
    if "status task = Pending" "depId \<in> set (dependsOn task)"
       "getTask dag depId = Some dep" "status dep = Failed" for task depId dep
  proof
    assume "task \<in> set (getReadyTasks dag)"
    then have "allDepsCompleted dag task" by (simp add: getReadyTasks_filter)
    with that(2) obtain dep' where "getTask dag depId = Some dep'" "status dep' = Completed"
      by (auto simp: allDepsCompleted_iff)
    with that(3,4) show False by simp
  qed
  with eq show ?thesis by blast
qed

theorem getReadyTasks_exact_witness:
  "getReadyTasks readyExample = [mkTask ''c'' [''a''] Pending]
   \<and> getTask readyExample ''b'' = Some (mkTask ''b'' [] Failed)
   \<and> mkTask ''d'' [''a'', ''b''] Pending \<notin> set (getReadyTasks readyExample)"
proof -
  have b: "getTask readyExample ''b'' = Some (mkTask ''b'' [] Failed)"
    by (simp add: readyExample_def newExecutionDAG_def getTask_def mkTask_def)
  have d: "mkTask ''d'' [''a'', ''b''] Pending \<notin> set (getReadyTasks readyExample)"
    using getReadyTasks_exact [of readyExample] b by (auto simp: mkTask_def)
  have "getReadyTasks readyExample = [mkTask ''c'' [''a''] Pending]"
    by (simp add: getReadyTasks_def allDepsCompleted_def readyExample_def newExecutionDAG_def
        getTask_def getAllTasks_def mkTask_def)
  with b d show ?thesis by simp
qed

text \<open>
  C10. Calling \<^verbatim>\<open>markExecuting\<close>, \<^verbatim>\<open>completeTask\<close> or \<^verbatim>\<open>failTask\<close> with a task id
  that is not a key of the graph returns normally and leaves the whole graph, hence every
  task's status, result and error, unchanged.
\<close>

theorem transition_unknown_id_noop:
  "taskId \<notin> set (map fst dag) \<Longrightarrow>
     markExecuting dag taskId = dag \<and> completeTask dag taskId res = dag \<and>
     failTask dag taskId err = dag"
  by (simp add: markExecuting_def completeTask_def failTask_def updateTask_absent
      getTask_None_iff)

theorem transition_unknown_id_noop_witness:
  "''zz'' \<notin> set (map fst readyExample)
   \<and> markExecuting readyExample ''zz'' = readyExample
   \<and> completeTask readyExample ''zz'' ''r'' = readyExample
   \<and> failTask readyExample ''zz'' ''e'' = readyExample"
proof -
  have h: "''zz'' \<notin> set (map fst readyExample)"
    by (simp add: readyExample_def newExecutionDAG_def mkTask_def)
  from transition_unknown_id_noop [OF h] h show ?thesis by blast
qed

text \<open>
  C6, as the code has it. The three transitions are unguarded writes: on a task that is
  in the graph each of them sets the status to its own target value whatever the status
  was, so neither completed nor failed is terminal in the graph itself. What the graph
  does guarantee is the frame: a task is changed only by a transition addressed to its own
  id. Hence a completed or failed task keeps its status, result and error through every
  sequence of transitions on other tasks, and while a failed task is left alone
  \<^verbatim>\<open>hasFailed()\<close> stays true and \<^verbatim>\<open>isComplete()\<close> stays false.
\<close>

theorem transitions_unguarded_frame:
  "(getTask dag i = Some task \<longrightarrow>
      map_option status (getTask (markExecuting dag i) i) = Some Executing \<and>
      map_option status (getTask (completeTask dag i res) i) = Some Completed \<and>
      map_option status (getTask (failTask dag i err) i) = Some Failed)
   \<and> ((\<forall>tr \<in> set trs. target tr \<noteq> i) \<longrightarrow>
        getTask (applyTransitions dag trs) i = getTask dag i)
   \<and> (getTask dag i = Some task \<and> status task = Failed \<and> (\<forall>tr \<in> set trs. target tr \<noteq> i) \<longrightarrow>
        hasFailed (applyTransitions dag trs) \<and> \<not> isComplete (applyTransitions dag trs))"
proof -
  have a: "map_option status (getTask (markExecuting dag i) i) = Some Executing \<and>
      map_option status (getTask (completeTask dag i res) i) = Some Completed \<and>
      map_option status (getTask (failTask dag i err) i) = Some Failed"
    if "getTask dag i = Some task"
    using that
    by (simp add: markExecuting_def completeTask_def failTask_def getTask_updateTask_same
        assign_def)
  have c: "hasFailed (applyTransitions dag trs) \<and> \<not> isComplete (applyTransitions dag trs)"
    if "getTask dag i = Some task" "status task = Failed" "\<forall>tr \<in> set trs. target tr \<noteq> i"
  proof -
    from that have "getTask (applyTransitions dag trs) i = Some task"
      by (simp add: getTask_applyTransitions_other)
    then have "task \<in> set (getAllTasks (applyTransitions dag trs))"
      by (rule getTask_Some_in_getAllTasks)
    with that(2) show ?thesis
      by (force simp: hasFailed_def isComplete_def list_ex_iff list_all_iff)
  qed
  from a c show ?thesis by (simp add: getTask_applyTransitions_other)
qed

theorem transitions_unguarded_frame_witness:
  "getTask oneTaskFailed ''t'' = Some ((mkTask ''t'' [] Failed)\<lparr>error := Some ''boom''\<rparr>)
   \<and> map_option status (getTask (markExecuting oneTaskFailed ''t'') ''t'') = Some Executing
   \<and> hasFailed (applyTransitions oneTaskFailed [MarkExecuting ''u'', CompleteTask ''v'' ''r''])
   \<and> \<not> isComplete (applyTransitions oneTaskFailed [MarkExecuting ''u'', CompleteTask ''v'' ''r''])"
proof -
  have t: "getTask oneTaskFailed ''t'' = Some ((mkTask ''t'' [] Failed)\<lparr>error := Some ''boom''\<rparr>)"
    by (simp add: oneTaskFailed_def oneTask_def newExecutionDAG_def failTask_def updateTask_def
        getTask_def assign_def mkTask_def)
  have s: "status ((mkTask ''t'' [] Failed)\<lparr>error := Some ''boom''\<rparr>) = Failed"
    by (simp add: mkTask_def)
  show ?thesis
    using transitions_unguarded_frame
      [of oneTaskFailed "''t''" "(mkTask ''t'' [] Failed)\<lparr>error := Some ''boom''\<rparr>"
          "''r''" "''e''" "[MarkExecuting ''u'', CompleteTask ''v'' ''r'']"]
      t s
    by simp
qed

text \<open>
  The claim as stated fails: a failed task that is completed afterwards is completed, and
  the graph then reports no failure and is complete.
\<close>

theorem terminal_status_counterexample:
  "map_option status (getTask oneTaskFailed ''t'') = Some Failed
   \<and> hasFailed oneTaskFailed
   \<and> map_option status (getTask oneTaskRevived ''t'') = Some Completed
   \<and> \<not> hasFailed oneTaskRevived
   \<and> isComplete oneTaskRevived"
  by (simp add: oneTaskRevived_def oneTaskFailed_def oneTask_def newExecutionDAG_def
      failTask_def completeTask_def updateTask_def getTask_def assign_def mkTask_def
      hasFailed_def isComplete_def getAllTasks_def)

section \<open>Claims about validation\<close>

text \<open>
  C4. When some task of the graph lists a dependency id that is not a key of the graph,
  \<^verbatim>\<open>validate()\<close> returns \<^verbatim>\<open>valid = false\<close> and its errors list contains the message
  for that reference, which contains both the task's id and the missing id. The errors
  list is exactly one such message per missing reference, in map order, followed by the
  cycle message when \<^verbatim>\<open>hasCycles()\<close> holds: the dependency messages do not depend on the
  cycle check.
\<close>

theorem validate_missing_dependency:
  "task \<in> set (getAllTasks dag) \<Longrightarrow> depId \<in> set (dependsOn task) \<Longrightarrow> \<not> hasKey dag depId \<Longrightarrow>
     \<not> valid (validate dag) \<and>
     missingDependencyMessage (node_id task) depId \<in> set (errors (validate dag)) \<and>
     includesStr (missingDependencyMessage (node_id task) depId) (node_id task) \<and>
     includesStr (missingDependencyMessage (node_id task) depId) depId \<and>
     errors (validate dag) =
       concat (map (\<lambda>task. map (missingDependencyMessage (node_id task))
                            (filter (\<lambda>d. \<not> hasKey dag d) (dependsOn task))) (getAllTasks dag))
       @ (if hasCycles dag then [cycleMessage] else [])"
proof -
  assume a: "task \<in> set (getAllTasks dag)" "depId \<in> set (dependsOn task)" "\<not> hasKey dag depId"
  have mem: "missingDependencyMessage (node_id task) depId \<in> set (errors (validate dag))"
    unfolding errors_validate using a by auto
  then have "errors (validate dag) \<noteq> []" by auto
  then have "\<not> valid (validate dag)" by (simp add: valid_validate)
  with mem missingDependencyMessage_names [of "node_id task" depId] errors_validate [of dag]
  show ?thesis by blast
qed

theorem validate_missing_dependency_witness:
  "mkTask ''x'' [''ghost'', ''y''] Pending \<in> set (getAllTasks danglingAndCycle)
   \<and> \<not> hasKey danglingAndCycle ''ghost''
   \<and> hasCycles danglingAndCycle
   \<and> \<not> valid (validate danglingAndCycle)
   \<and> missingDependencyMessage ''x'' ''ghost'' \<in> set (errors (validate danglingAndCycle))"
proof -
  have 1: "mkTask ''x'' [''ghost'', ''y''] Pending \<in> set (getAllTasks danglingAndCycle)"
    by (simp add: danglingAndCycle_def newExecutionDAG_def getAllTasks_def mkTask_def)
  have 2: "''ghost'' \<in> set (dependsOn (mkTask ''x'' [''ghost'', ''y''] Pending))"
    by (simp add: mkTask_def)
  have 3: "\<not> hasKey danglingAndCycle ''ghost''"
    by (simp add: danglingAndCycle_def newExecutionDAG_def hasKey_def mkTask_def)
  have 4: "hasCycles danglingAndCycle" by code_simp
  have 5: "node_id (mkTask ''x'' [''ghost'', ''y''] Pending) = ''x''" by (simp add: mkTask_def)
  from validate_missing_dependency [OF 1 2 3, unfolded 5] 1 3 4 show ?thesis by blast
qed

text \<open>
  C3, as the code has it. For every graph with a dependency cycle \<^verbatim>\<open>validate()\<close> returns
  \<^verbatim>\<open>valid = false\<close> and the last entry of its errors list is the fixed message
  \<^verbatim>\<open>Cycle detected in task dependencies\<close>; the cycle reconstructed from the recursion
  stack, a dependency cycle of the graph, is written as one line to the console, and that
  line is not part of the errors list.
\<close>

theorem validate_cycle_generic_message:
  "(v, v) \<in> (edges dag)\<^sup>+ \<Longrightarrow>
     \<not> valid (validate dag) \<and> cycleMessage \<in> set (errors (validate dag)) \<and>
     last (errors (validate dag)) = cycleMessage \<and>
     (\<exists>cycle. dependencyCycle dag cycle \<and>
        console (snd (hasCyclesRun dag)) = [cycleLine cycle] \<and>
        cycleLine cycle \<notin> set (errors (validate dag)))"
proof -
  assume "(v, v) \<in> (edges dag)\<^sup>+"
  then have h: "hasCycles dag" by (rule hasCycles_complete)
  then have "cycleMessage \<in> set (errors (validate dag))" "last (errors (validate dag)) = cycleMessage"
    by (simp_all add: errors_validate)
  moreover from this have "\<not> valid (validate dag)" by (auto simp: valid_validate)
  ultimately show ?thesis using hasCycles_reports [OF h] cycleLine_not_error [of _ dag] by blast
qed

lemma edges_cycleAB: "(''taskA'', ''taskB'') \<in> edges cycleAB" "(''taskB'', ''taskA'') \<in> edges cycleAB"
  by (simp_all add: edges_def cycleAB_def newExecutionDAG_def getTask_def mkTask_def)

theorem validate_cycle_generic_message_witness:
  "(''taskA'', ''taskA'') \<in> (edges cycleAB)\<^sup>+
   \<and> \<not> valid (validate cycleAB) \<and> cycleMessage \<in> set (errors (validate cycleAB))
   \<and> (\<exists>cycle. dependencyCycle cycleAB cycle \<and>
          console (snd (hasCyclesRun cycleAB)) = [cycleLine cycle] \<and>
          cycleLine cycle \<notin> set (errors (validate cycleAB)))
   \<and> dependencyCycle cycleAB [''taskA'', ''taskB'', ''taskA'']
   \<and> console (snd (hasCyclesRun cycleAB)) = [cycleLine [''taskA'', ''taskB'', ''taskA'']]"
proof -
  have c: "(''taskA'', ''taskA'') \<in> (edges cycleAB)\<^sup>+"
    using edges_cycleAB by (rule trancl_into_trancl [OF r_into_trancl])
  have e: "dependencyCycle cycleAB [''taskA'', ''taskB'', ''taskA'']"
    "console (snd (hasCyclesRun cycleAB)) = [cycleLine [''taskA'', ''taskB'', ''taskA'']]"
    by code_simp+
  from validate_cycle_generic_message [OF c] c e show ?thesis by simp
qed

text \<open>
  The claim as stated fails for the two-task cycle: the only error is the fixed message,
  which contains neither task id; the ids appear in the console line only.
\<close>

theorem validate_cycle_message_counterexample:
  "hasCycles cycleAB
   \<and> validate cycleAB = \<lparr>valid = False, errors = [''Cycle detected in task dependencies'']\<rparr>
   \<and> \<not> includesStr ''Cycle detected in task dependencies'' ''taskA''
   \<and> \<not> includesStr ''Cycle detected in task dependencies'' ''taskB''
   \<and> console (snd (hasCyclesRun cycleAB)) = [''Cycle detected: taskA -> taskB -> taskA'']"
  by code_simp

section \<open>Claims about the scheduler and the controller\<close>




text \<open>
  C5, at a deadlock. When a cycle ends with a graph that is incomplete, has no failed task
  and no ready task, \<^verbatim>\<open>shouldReplan\<close> is true and the loop logs a replanning entry,
  but phase 1 of the next cycle plans only when the graph is complete or has a failed
  task. So from such a state the loop runs every remaining cycle on the same graph, makes
  no further planner request, and ends without a result.
\<close>

theorem deadlock_never_replanned:
  assumes dl: "\<not> isComplete dag" "\<not> hasFailed dag" "getReadyTasks dag = []"
  shows "currentDag st = Some dag \<Longrightarrow>
     fst (executeLoop agent st) = None \<and>
     currentDag (snd (executeLoop agent st)) = Some dag \<and>
     plannerContexts (snd (executeLoop agent st)) = plannerContexts st \<and>
     int (executionCycle (snd (executeLoop agent st))) =
       max (int (executionCycle st)) (maxExecutionCycles agent)"
proof (induction "nat (maxExecutionCycles agent - int (executionCycle st))" arbitrary: st)
  case 0
  then show ?case by (subst (1 2 3 4) executeLoop.simps) simp
next
  case (Suc n)
  let ?st0 = "st\<lparr>executionCycle := Suc (executionCycle st)\<rparr>"
  let ?st' = "?st0\<lparr>currentDag := Some dag,
       progressLog := logProgress (progressLog ?st0) (executionCycle ?st0)
         ''REPLANNING'' ''Replanning triggered due to failures''\<rparr>"
  have lt: "int (executionCycle st) < maxExecutionCycles agent" using Suc(2) by simp
  have plan: "planIfNeeded agent ?st0 = (None, ?st0)"
    using Suc(3) dl by (simp add: planIfNeeded_def needsPlanning_def)
  have rp: "shouldReplan dag \<lparr>complete = False, finalResult = None\<rparr>"
    using dl by (simp add: shouldReplan_def)
  have step: "executeLoop agent st = executeLoop agent ?st'"
    by (subst executeLoop.simps)
       (simp add: lt plan Suc(3) executionPhase_deadlock [OF dl] rp)
  have m: "n = nat (maxExecutionCycles agent - int (executionCycle ?st'))"
    using Suc(2) by simp
  have "currentDag ?st' = Some dag" by simp
  from Suc(1) [OF m this] lt show ?case unfolding step by simp
qed

lemma stuckGraph_deadlock:
  "\<not> isComplete stuckGraph" "\<not> hasFailed stuckGraph" "getReadyTasks stuckGraph = []"
  by (simp_all add: stuckGraph_def newExecutionDAG_def isComplete_def hasFailed_def
      getReadyTasks_def getAllTasks_def mkTask_def)

theorem deadlock_never_replanned_witness:
  "shouldReplan stuckGraph \<lparr>complete = False, finalResult = None\<rparr>
   \<and> executionPhase runnerAB (\<lambda>r. r) stuckGraph 2 [] =
       (Inr \<lparr>complete = False, finalResult = None\<rparr>, stuckGraph, [], False)
   \<and> fst (executeLoop planAB stuckState) = None
   \<and> plannerContexts (snd (executeLoop planAB stuckState)) = plannerContexts stuckState
   \<and> currentDag (snd (executeLoop planAB stuckState)) = Some stuckGraph
   \<and> executionCycle (snd (executeLoop planAB stuckState)) = 3"
proof -
  have c: "currentDag stuckState = Some stuckGraph" by (simp add: stuckState_def)
  have m: "maxExecutionCycles planAB = 3" "executionCycle stuckState = 1"
    by (simp_all add: planAB_def newMaxExecutionCycles_def stuckState_def)
  from deadlock_never_replanned [OF stuckGraph_deadlock c, of planAB] m
  have "fst (executeLoop planAB stuckState) = None"
    "plannerContexts (snd (executeLoop planAB stuckState)) = plannerContexts stuckState"
    "currentDag (snd (executeLoop planAB stuckState)) = Some stuckGraph"
    "executionCycle (snd (executeLoop planAB stuckState)) = 3"
    by simp_all
  moreover have "shouldReplan stuckGraph \<lparr>complete = False, finalResult = None\<rparr>"
    using stuckGraph_deadlock by (simp add: shouldReplan_def)
  ultimately show ?thesis
    using executionPhase_deadlock [OF stuckGraph_deadlock] by simp
qed

text \<open>
  C9, at a graph with a repeated dependency id. The graph with \<^verbatim>\<open>t1\<close> and
  \<^verbatim>\<open>t2(dependsOn = [t1, t1])\<close> is valid and acyclic, yet \<^verbatim>\<open>getExecutionLayers()\<close>
  throws: the in-degree of \<^verbatim>\<open>t2\<close> starts at the length 2 of the array and is decremented
  once. For A, B, C(dependsOn = [A, B]) it returns the two layers [A, B] and [C].
\<close>

theorem layers_duplicate_dependency_throws:
  "validate duplicateDeps = \<lparr>valid = True, errors = []\<rparr>
   \<and> \<not> hasCycles duplicateDeps
   \<and> getExecutionLayers duplicateDeps = Inl (Error ''Cycle detected: processed 1 of 2 tasks'')
   \<and> getExecutionLayers layersABC =
       Inr [[mkTask ''A'' [] Pending, mkTask ''B'' [] Pending], [mkTask ''C'' [''A'', ''B''] Pending]]"
  by code_simp














end
